theory Spec2Isabelle
  imports Complex_Main
begin

section \<open>Geographic proximity (utils/geoUtils.ts)\<close>

text \<open>
  JavaScript numbers are IEEE-754 doubles. They are modelled here by the real numbers they
  approximate: \<open>Math.sin\<close>, \<open>Math.cos\<close> and \<open>Math.sqrt\<close> are the real functions, and neither
  rounding nor NaN is represented. The model therefore says nothing about the equality of
  two computed doubles. It differs from the source where rounding decides: for nearly
  antipodal points the exact haversine term \<open>a\<close> is 1 or just below, the doubles can come
  out above 1, and then \<open>Math.sqrt(1 - a)\<close> and the distance are NaN in the source. The
  model serves the radius test only, where NaN and the exact half circumference give the
  same answer for every radius below it.
  \<open>Math.atan2 y x\<close> is the angle of the point \<open>(x, y)\<close> in \<open>(-pi, pi]\<close>.
\<close>

definition atan2 :: "real \<Rightarrow> real \<Rightarrow> real" where
  "atan2 y x =
     (if 0 < x then arctan (y / x)
      else if x < 0 then (if 0 \<le> y then arctan (y / x) + pi else arctan (y / x) - pi)
      else if 0 < y then pi / 2
      else if y < 0 then - (pi / 2)
      else 0)"

definition calculateDistance :: "real \<Rightarrow> real \<Rightarrow> real \<Rightarrow> real \<Rightarrow> real" where
  "calculateDistance lat1 lon1 lat2 lon2 =
     (let R = 6371000;
          phi1 = (lat1 * pi) / 180;
          phi2 = (lat2 * pi) / 180;
          dphi = ((lat2 - lat1) * pi) / 180;
          dlam = ((lon2 - lon1) * pi) / 180;
          a = sin (dphi / 2) * sin (dphi / 2)
              + cos phi1 * cos phi2 * sin (dlam / 2) * sin (dlam / 2);
          c = 2 * atan2 (sqrt a) (sqrt (1 - a))
      in R * c)"

definition isWithinRadius :: "real \<Rightarrow> real \<Rightarrow> real \<Rightarrow> real \<Rightarrow> real \<Rightarrow> bool" where
  "isWithinRadius lat1 lon1 lat2 lon2 radiusMeters =
     (calculateDistance lat1 lon1 lat2 lon2 \<le> radiusMeters)"


section \<open>Photo fingerprint (utils/photoHash.ts)\<close>

text \<open>
  Strings are lists of 8-bit characters; the payloads of interest (base64 text and data
  URLs) are ASCII, where this agrees with JavaScript's UTF-16 code units.
  \<open>wordChar\<close> is the regular-expression class \<open>\w\<close>, that is \<open>[A-Za-z0-9_]\<close>.
\<close>

definition wordChar :: "char \<Rightarrow> bool" where
  "wordChar c =
     (let n = (of_char c :: nat)
      in (48 \<le> n \<and> n \<le> 57) \<or> (65 \<le> n \<and> n \<le> 90) \<or> n = 95 \<or> (97 \<le> n \<and> n \<le> 122))"

text \<open>
  The anchored pattern \<open>^data:image\/\w+;base64,\<close>. Since \<open>;\<close> is not a word character,
  the greedy \<open>\w+\<close> can only end at the end of the maximal run of word characters, so
  backtracking never finds another match. The result is the captured run together with the
  text that follows the matched preamble.
\<close>

definition matchDataUrlPrefix :: "string \<Rightarrow> (string \<times> string) option" where
  "matchDataUrlPrefix s =
     (if take 11 s = ''data:image/'' then
        (let t = drop 11 s;
             w = takeWhile wordChar t;
             r = dropWhile wordChar t
         in if w \<noteq> [] \<and> take 8 r = '';base64,'' then Some (w, drop 8 r) else None)
      else None)"

text \<open>
  \<open>base64Data.replace(/^data:image\/\w+;base64,/, '')\<close>: the matched preamble is removed, an
  unmatched string is returned as it is.
\<close>

definition stripDataUrlPrefix :: "string \<Rightarrow> string" where
  "stripDataUrlPrefix base64Data =
     (case matchDataUrlPrefix base64Data of None \<Rightarrow> base64Data | Some (w, r) \<Rightarrow> r)"

text \<open>
  The digest \<open>crypto.createHash('sha256')\<close> belongs to the platform, not to the repository:
  it is a parameter \<open>sha\<close> of the model.
\<close>

definition generatePhotoHash :: "(string \<Rightarrow> string) \<Rightarrow> string \<Rightarrow> string" where
  "generatePhotoHash sha base64Data = sha (stripDataUrlPrefix base64Data)"

text \<open>
  The characters that \<open>.\<close> does not match: line feed and carriage return (the separators
  U+2028 and U+2029 lie outside the 8-bit characters of the model).
\<close>

definition lineTerminator :: "char \<Rightarrow> bool" where
  "lineTerminator c = ((of_char c :: nat) = 10 \<or> (of_char c :: nat) = 13)"

text \<open>
  \<open>isValidBase64Image\<close>: a string starting with \<open>data:image/\<close> must match
  \<open>^data:image\/(\w+);base64,(.+)$\<close>, whose last group is a non-empty text without line
  terminators up to the end of the input. \<open>Buffer.from(_, 'base64')\<close> skips what it cannot
  decode and never throws, so every other string is accepted.
\<close>

definition isValidBase64Image :: "string \<Rightarrow> bool" where
  "isValidBase64Image base64Data =
     (if take 11 base64Data = ''data:image/'' then
        (case matchDataUrlPrefix base64Data of
           None \<Rightarrow> False
         | Some (w, r) \<Rightarrow> r \<noteq> [] \<and> list_all (\<lambda>c. \<not> lineTerminator c) r)
      else True)"


section \<open>The store\<close>

type_synonym userId = string

text \<open>Report keys are generated by the database; here a report's key is its insertion index.\<close>

type_synonym reportId = nat

text \<open>
  The rows of the report table. The source's fields \<open>id\<close> and \<open>size\<close> are \<open>id_r\<close> and \<open>size_r\<close>
  here, since \<open>id\<close> and \<open>size\<close> are functions of HOL.
\<close>

datatype DumpStatus = UNVERIFIED | VERIFIED

datatype DumpSize = SMALL | MEDIUM | LARGE

record dumpReport =
  id_r :: reportId
  reporterId :: userId
  latitude :: real
  longitude :: real
  photoUrl :: string
  photoHash :: string
  size_r :: DumpSize
  description :: "string option"
  status :: DumpStatus

record reputationScore =
  score :: int
  verifiedReports :: int
  falseReports :: int

text \<open>
  The tables touched by a submission. A row of \<open>photoHashes\<close> is \<open>(hash, uploadedBy)\<close>, a
  row of \<open>dumpVerifications\<close> is \<open>(dumpReportId, verifierId)\<close>; both are kept in insertion
  order. \<open>awardLog\<close> is the trace of the \<open>reputationScore.upsert\<close> calls made by the award
  loops, each tagged with the report whose verifiers were being rewarded; no operation
  reads it.
\<close>

record store =
  photoHashes :: "(string \<times> userId) list"
  dumpReports :: "dumpReport list"
  dumpVerifications :: "(reportId \<times> userId) list"
  reputationScores :: "userId \<rightharpoonup> reputationScore"
  awardLog :: "(reportId \<times> userId) list"

text \<open>
  What the controller takes from outside: the two environment settings, the platform's
  digest, and whether the database schema declares verification rows unique (see
  \<open>dumpVerification_create\<close>).
\<close>

record env =
  GEO_CLUSTER_RADIUS :: real
  REPUTATION_PER_VERIFIED :: int
  sha256 :: "string \<Rightarrow> string"
  verificationUnique :: bool

datatype dbError = UniqueConstraintFailed | RecordNotFound

definition photoHash_findUnique :: "store \<Rightarrow> string \<Rightarrow> (string \<times> userId) option" where
  "photoHash_findUnique s h = find (\<lambda>p. fst p = h) (photoHashes s)"

text \<open>\<open>hash\<close> is a unique key of the table (the controller looks rows up by it with \<open>findUnique\<close>).\<close>

definition photoHash_create :: "string \<Rightarrow> userId \<Rightarrow> store \<Rightarrow> dbError + store" where
  "photoHash_create h u s =
     (if h \<in> fst ` set (photoHashes s) then Inl UniqueConstraintFailed
      else Inr (s\<lparr>photoHashes := photoHashes s @ [(h, u)]\<rparr>))"

definition dumpReport_create ::
  "userId \<Rightarrow> real \<Rightarrow> real \<Rightarrow> string \<Rightarrow> string \<Rightarrow> DumpSize \<Rightarrow> string option \<Rightarrow> store
     \<Rightarrow> dumpReport \<times> store" where
  "dumpReport_create u lat lon url h sz d s =
     (let r = \<lparr>id_r = length (dumpReports s), reporterId = u, latitude = lat, longitude = lon,
                photoUrl = url, photoHash = h, size_r = sz, description = d,
                status = UNVERIFIED\<rparr>
      in (r, s\<lparr>dumpReports := dumpReports s @ [r]\<rparr>))"

definition dumpReport_findUnique :: "store \<Rightarrow> reportId \<Rightarrow> dumpReport option" where
  "dumpReport_findUnique s r = find (\<lambda>d. id_r d = r) (dumpReports s)"

definition dumpReport_update :: "reportId \<Rightarrow> DumpStatus \<Rightarrow> store \<Rightarrow> dbError + store" where
  "dumpReport_update r st s =
     (if r \<in> id_r ` set (dumpReports s) then
        Inr (s\<lparr>dumpReports := map (\<lambda>d. if id_r d = r then d\<lparr>status := st\<rparr> else d) (dumpReports s)\<rparr>)
      else Inl RecordNotFound)"

text \<open>
  Modelled from the spec: the store enforces a uniqueness constraint on
  \<open>(dumpReportId, verifierId)\<close>; the schema that would declare it is not among the sources.
  The constraint is the parameter \<open>verificationUnique\<close>: with it, creating a pair that exists
  fails; without it, the row is appended once more.
\<close>

definition dumpVerification_create :: "env \<Rightarrow> reportId \<Rightarrow> userId \<Rightarrow> store \<Rightarrow> dbError + store" where
  "dumpVerification_create env r u s =
     (if verificationUnique env \<and> (r, u) \<in> set (dumpVerifications s) then Inl UniqueConstraintFailed
      else Inr (s\<lparr>dumpVerifications := dumpVerifications s @ [(r, u)]\<rparr>))"

definition dumpVerification_findMany :: "store \<Rightarrow> reportId \<Rightarrow> (reportId \<times> userId) list" where
  "dumpVerification_findMany s r = filter (\<lambda>v. fst v = r) (dumpVerifications s)"

definition dumpVerification_count :: "store \<Rightarrow> reportId \<Rightarrow> nat" where
  "dumpVerification_count s r = length (dumpVerification_findMany s r)"

text \<open>
  \<open>reputationScore.upsert\<close> as the award loops call it, for the verifier \<open>u\<close> of report \<open>r\<close>:
  a missing row is created with the award (and no false reports, as at registration), an
  existing one is incremented.
\<close>

definition reputationScore_upsert :: "env \<Rightarrow> reportId \<Rightarrow> userId \<Rightarrow> store \<Rightarrow> store" where
  "reputationScore_upsert env r u s =
     s\<lparr>reputationScores := (reputationScores s)(u \<mapsto>
          (case reputationScores s u of
             None \<Rightarrow> \<lparr>score = REPUTATION_PER_VERIFIED env, verifiedReports = 1, falseReports = 0\<rparr>
           | Some x \<Rightarrow> x\<lparr>score := score x + REPUTATION_PER_VERIFIED env,
                          verifiedReports := verifiedReports x + 1\<rparr>)),
       awardLog := awardLog s @ [(r, u)]\<rparr>"


section \<open>Submitting a report (controllers/dumps.controller.ts)\<close>

text \<open>
  A request: the authenticated user and the fields of the body. The size is still the
  string that the schema check compares with the three size names.
\<close>

record request =
  req_userId :: userId
  req_latitude :: real
  req_longitude :: real
  req_photoBase64 :: string
  req_size :: string
  req_description :: "string option"

definition parseSize :: "string \<Rightarrow> DumpSize option" where
  "parseSize x =
     (if x = ''SMALL'' then Some SMALL
      else if x = ''MEDIUM'' then Some MEDIUM
      else if x = ''LARGE'' then Some LARGE
      else None)"

text \<open>\<open>reportDumpSchema.parse\<close> succeeds: coordinates in range, a photo of at least 100 characters, a size name.\<close>

definition reportDumpSchema_ok :: "request \<Rightarrow> bool" where
  "reportDumpSchema_ok req =
     (- 90 \<le> req_latitude req \<and> req_latitude req \<le> 90
      \<and> - 180 \<le> req_longitude req \<and> req_longitude req \<le> 180
      \<and> 100 \<le> length (req_photoBase64 req)
      \<and> parseSize (req_size req) \<noteq> None)"

text \<open>
  The error answers of the handler: 400 \<open>Validation failed\<close>, 400 \<open>Invalid photo format\<close>,
  400 \<open>Photo already used\<close> and 500 \<open>Failed to submit report\<close>.
\<close>

datatype error = ValidationFailed | InvalidPhotoFormat | PhotoAlreadyUsed | FailedToSubmitReport

record response =
  report :: "dumpReport option"
  verificationCount :: nat
  isVerified :: bool

text \<open>A candidate report together with the verification rows read with it.\<close>

type_synonym nearby = "dumpReport \<times> (reportId \<times> userId) list"

text \<open>
  \<open>dumpReport.findMany\<close> for the reports of other users, other than the new one, with
  their verification rows as they are at this moment.
\<close>

definition findNearbyReports :: "store \<Rightarrow> reportId \<Rightarrow> userId \<Rightarrow> nearby list" where
  "findNearbyReports s newId u =
     map (\<lambda>d. (d, dumpVerification_findMany s (id_r d)))
       (filter (\<lambda>d. id_r d \<noteq> newId \<and> reporterId d \<noteq> u
                    \<and> (status d = UNVERIFIED \<or> status d = VERIFIED))
          (dumpReports s))"

text \<open>The loop \<open>for (const verifier of verifiers)\<close> over the rows of report \<open>r\<close>.\<close>

fun awardVerifiers :: "env \<Rightarrow> reportId \<Rightarrow> (reportId \<times> userId) list \<Rightarrow> store \<Rightarrow> store" where
  "awardVerifiers env r [] s = s"
| "awardVerifiers env r (v # vs) s = awardVerifiers env r vs (reputationScore_upsert env r (snd v) s)"

text \<open>
  The body of the first loop over the clustered reports: the submitter verifies the report
  unless the rows read with it already show the submitter; a report read as \<open>UNVERIFIED\<close>
  that now has two rows becomes \<open>VERIFIED\<close> and its verifiers are rewarded.
\<close>

definition verifyOne :: "env \<Rightarrow> userId \<Rightarrow> nearby \<Rightarrow> store \<Rightarrow> dbError + store" where
  "verifyOne env u n s =
     (if list_ex (\<lambda>v. snd v = u) (snd n) then Inr s
      else
        (case dumpVerification_create env (id_r (fst n)) u s of
           Inl e \<Rightarrow> Inl e
         | Inr s1 \<Rightarrow>
             (if 2 \<le> dumpVerification_count s1 (id_r (fst n)) \<and> status (fst n) = UNVERIFIED then
                (case dumpReport_update (id_r (fst n)) VERIFIED s1 of
                   Inl e \<Rightarrow> Inl e
                 | Inr s2 \<Rightarrow>
                     Inr (awardVerifiers env (id_r (fst n))
                            (dumpVerification_findMany s2 (id_r (fst n))) s2))
              else Inr s1)))"

fun verifyClustered :: "env \<Rightarrow> userId \<Rightarrow> nearby list \<Rightarrow> store \<Rightarrow> dbError + store" where
  "verifyClustered env u [] s = Inr s"
| "verifyClustered env u (n # ns) s =
     (case verifyOne env u n s of
        Inl e \<Rightarrow> Inl e
      | Inr s1 \<Rightarrow> verifyClustered env u ns s1)"

text \<open>
  The second loop: every clustered report's author is recorded as a verifier of the new
  report \<open>r\<close>, with no test for a row that is already there.
\<close>

fun linkCreators :: "env \<Rightarrow> reportId \<Rightarrow> nearby list \<Rightarrow> store \<Rightarrow> dbError + store" where
  "linkCreators env r [] s = Inr s"
| "linkCreators env r (n # ns) s =
     (case dumpVerification_create env r (reporterId (fst n)) s of
        Inl e \<Rightarrow> Inl e
      | Inr s1 \<Rightarrow> linkCreators env r ns s1)"

text \<open>\<open>nearbyReports.filter(r => isWithinRadius(...))\<close>: the candidates within the cluster radius.\<close>

definition filterClustered :: "env \<Rightarrow> request \<Rightarrow> nearby list \<Rightarrow> nearby list" where
  "filterClustered env req nearbyReports =
     filter (\<lambda>n. isWithinRadius (req_latitude req) (req_longitude req)
                    (latitude (fst n)) (longitude (fst n)) (GEO_CLUSTER_RADIUS env))
       nearbyReports"

text \<open>The body of \<open>prisma.$transaction\<close>; an error leaves nothing behind (see \<open>reportDump\<close>).\<close>

definition reportDumpTx :: "env \<Rightarrow> request \<Rightarrow> DumpSize \<Rightarrow> string \<Rightarrow> store \<Rightarrow> dbError + (dumpReport \<times> store)" where
  "reportDumpTx env req sz h s =
     (case photoHash_create h (req_userId req) s of
        Inl e \<Rightarrow> Inl e
      | Inr s1 \<Rightarrow>
          (let (r, s2) = dumpReport_create (req_userId req) (req_latitude req) (req_longitude req)
                           (req_photoBase64 req) h sz (req_description req) s1
           in case dumpVerification_create env (id_r r) (req_userId req) s2 of
                Inl e \<Rightarrow> Inl e
              | Inr s3 \<Rightarrow>
                  (let nearbyReports = findNearbyReports s3 (id_r r) (req_userId req);
                       clusteredReports = filterClustered env req nearbyReports
                   in if 0 < length clusteredReports then
                        (case verifyClustered env (req_userId req) clusteredReports s3 of
                           Inl e \<Rightarrow> Inl e
                         | Inr s4 \<Rightarrow>
                             (case linkCreators env (id_r r) clusteredReports s4 of
                                Inl e \<Rightarrow> Inl e
                              | Inr s5 \<Rightarrow>
                                  (if 2 \<le> dumpVerification_count s5 (id_r r) then
                                     (case dumpReport_update (id_r r) VERIFIED s5 of
                                        Inl e \<Rightarrow> Inl e
                                      | Inr s6 \<Rightarrow>
                                          Inr (r, awardVerifiers env (id_r r)
                                                    (dumpVerification_findMany s6 (id_r r)) s6))
                                   else Inr (r, s5))))
                      else Inr (r, s3))))"

text \<open>
  The answer to an accepted request: the report is read again after the transaction,
  with its verification rows.
\<close>

definition respond :: "store \<Rightarrow> reportId \<Rightarrow> response" where
  "respond s r =
     (let updatedReport = dumpReport_findUnique s r
      in \<lparr>report = updatedReport,
          verificationCount = (case updatedReport of
                                 None \<Rightarrow> 0
                               | Some d \<Rightarrow> length (dumpVerification_findMany s (id_r d))),
          isVerified = (case updatedReport of
                          None \<Rightarrow> False
                        | Some d \<Rightarrow> status d = VERIFIED)\<rparr>)"

text \<open>
  The handler. Validation and the fingerprint lookup come before the transaction; a
  failed transaction is rolled back, so the store is the one the request found.
\<close>

definition reportDump :: "env \<Rightarrow> store \<Rightarrow> request \<Rightarrow> (error + response) \<times> store" where
  "reportDump env s req =
     (if \<not> reportDumpSchema_ok req then (Inl ValidationFailed, s)
      else if \<not> isValidBase64Image (req_photoBase64 req) then (Inl InvalidPhotoFormat, s)
      else
        (let h = generatePhotoHash (sha256 env) (req_photoBase64 req)
         in case photoHash_findUnique s h of
              Some p \<Rightarrow> (Inl PhotoAlreadyUsed, s)
            | None \<Rightarrow>
                (case reportDumpTx env req (the (parseSize (req_size req))) h s of
                   Inl e \<Rightarrow> (Inl FailedToSubmitReport, s)
                 | Inr (r, s') \<Rightarrow> (Inr (respond s' (id_r r)), s'))))"


section \<open>Runs of the handler\<close>

text \<open>
  A store before the first submission: no fingerprints, reports, verifications or awards.
  Registration has already given users reputation rows, so that table is arbitrary.
\<close>

definition initialStore :: "(userId \<rightharpoonup> reputationScore) \<Rightarrow> store" where
  "initialStore m =
     \<lparr>photoHashes = [], dumpReports = [], dumpVerifications = [], reputationScores = m,
      awardLog = []\<rparr>"

definition submit :: "env \<Rightarrow> store \<Rightarrow> request \<Rightarrow> store" where
  "submit env s req = snd (reportDump env s req)"

fun submitAll :: "env \<Rightarrow> store \<Rightarrow> request list \<Rightarrow> store" where
  "submitAll env s [] = s"
| "submitAll env s (req # reqs) = submitAll env (submit env s req) reqs"

text \<open>The stores that some sequence of submissions produces from the initial table \<open>m\<close>.\<close>

inductive reachable :: "env \<Rightarrow> (userId \<rightharpoonup> reputationScore) \<Rightarrow> store \<Rightarrow> bool"
  for env :: env and m :: "userId \<rightharpoonup> reputationScore" where
  reachable_init: "reachable env m (initialStore m)"
| reachable_step: "reachable env m s \<Longrightarrow> reachable env m (submit env s req)"

text \<open>Observations on a store, used to state the properties.\<close>

definition verifiersOf :: "store \<Rightarrow> reportId \<Rightarrow> userId set" where
  "verifiersOf s r = {u. (r, u) \<in> set (dumpVerifications s)}"

definition statusOf :: "store \<Rightarrow> reportId \<Rightarrow> DumpStatus option" where
  "statusOf s r = map_option status (dumpReport_findUnique s r)"

definition awardsFor :: "store \<Rightarrow> reportId \<Rightarrow> (reportId \<times> userId) list" where
  "awardsFor s r = filter (\<lambda>a. fst a = r) (awardLog s)"

definition scoreOf :: "store \<Rightarrow> userId \<Rightarrow> int" where
  "scoreOf s u = (case reputationScores s u of None \<Rightarrow> 0 | Some x \<Rightarrow> score x)"

text \<open>The reputation table after one more award to \<open>u\<close>, as \<open>reputationScore_upsert\<close> leaves it.\<close>

definition awardTo ::
  "env \<Rightarrow> (userId \<rightharpoonup> reputationScore) \<Rightarrow> userId \<Rightarrow> (userId \<rightharpoonup> reputationScore)" where
  "awardTo env m u = reputationScores (reputationScore_upsert env 0 u (initialStore m))"

text \<open>
  The consistency of a store. The reports in \<open>X\<close> are being created and are exempt from
  the clauses on self-verification and on the status; outside a transaction \<open>X\<close> is empty.
\<close>

definition storeInv :: "env \<Rightarrow> reportId set \<Rightarrow> store \<Rightarrow> bool" where
  "storeInv env X s =
     (map id_r (dumpReports s) = [0..<length (dumpReports s)]
      \<and> (\<forall>v \<in> set (dumpVerifications s). fst v < length (dumpReports s))
      \<and> (\<forall>d \<in> set (dumpReports s). id_r d \<notin> X \<longrightarrow>
            (id_r d, reporterId d) \<in> set (dumpVerifications s))
      \<and> (\<forall>d \<in> set (dumpReports s). id_r d \<notin> X \<longrightarrow>
            (status d = VERIFIED) = (2 \<le> card (verifiersOf s (id_r d))))
      \<and> (\<forall>a \<in> set (awardLog s). \<exists>d \<in> set (dumpReports s). id_r d = fst a \<and> status d = VERIFIED)
      \<and> set (awardLog s) \<subseteq> set (dumpVerifications s)
      \<and> (verificationUnique env \<longrightarrow> distinct (dumpVerifications s) \<and> distinct (awardLog s))
      \<and> (\<forall>p. count_list (awardLog s) p \<le> count_list (dumpVerifications s) p))"

text \<open>The report row that a request leaves in the store, with key \<open>k\<close> and status \<open>st\<close>.\<close>

definition reportOf :: "env \<Rightarrow> request \<Rightarrow> reportId \<Rightarrow> DumpStatus \<Rightarrow> dumpReport" where
  "reportOf env req k st =
     \<lparr>id_r = k, reporterId = req_userId req, latitude = req_latitude req,
      longitude = req_longitude req, photoUrl = req_photoBase64 req,
      photoHash = generatePhotoHash (sha256 env) (req_photoBase64 req),
      size_r = the (parseSize (req_size req)), description = req_description req,
      status = st\<rparr>"


section \<open>Concrete data for the examples\<close>

text \<open>
  The default settings: a radius of 100 m and 10 points. The identity stands for the
  digest in the examples, where only the equality of two digests matters.
\<close>

definition exampleEnv :: "bool \<Rightarrow> env" where
  "exampleEnv uq =
     \<lparr>GEO_CLUSTER_RADIUS = 100, REPUTATION_PER_VERIFIED = 10, sha256 = (\<lambda>x. x),
      verificationUnique = uq\<rparr>"

text \<open>No user has a reputation row yet.\<close>

definition noScores :: "userId \<rightharpoonup> reputationScore" where
  "noScores = (\<lambda>u. None)"

definition emptyStore :: store where
  "emptyStore = initialStore noScores"

definition mkRequest :: "userId \<Rightarrow> real \<Rightarrow> real \<Rightarrow> string \<Rightarrow> request" where
  "mkRequest u lat lon photo =
     \<lparr>req_userId = u, req_latitude = lat, req_longitude = lon, req_photoBase64 = photo,
      req_size = ''MEDIUM'', req_description = None\<rparr>"

text \<open>Users A and B at the two points of the scenario, with different photos.\<close>

definition reqA :: request where
  "reqA = mkRequest ''A'' 3.8480 11.5021 (replicate 100 (CHR ''A''))"

definition reqB :: request where
  "reqB = mkRequest ''B'' 3.8481 11.5022 (replicate 100 (CHR ''B''))"

text \<open>User B reports twice at one place; user A then reports at the same place.\<close>

definition reqB1 :: request where
  "reqB1 = mkRequest ''B'' 3.8480 11.5021 (replicate 100 (CHR ''P''))"

definition reqB2 :: request where
  "reqB2 = mkRequest ''B'' 3.8480 11.5021 (replicate 100 (CHR ''Q''))"

definition reqA3 :: request where
  "reqA3 = mkRequest ''A'' 3.8480 11.5021 (replicate 100 (CHR ''R''))"

text \<open>A third user C arrives at B's point after the scenario.\<close>

definition reqC :: request where
  "reqC = mkRequest ''C'' 3.8481 11.5022 (replicate 100 (CHR ''C''))"


section \<open>Properties of the distance\<close>

text \<open>
  Where the exact formula and the doubles part: at the nearly antipodal points (0.08, 0)
  and (-0.08, 180) the haversine term \<open>a\<close> is exactly 1, the end of the range on which the
  source's \<open>Math.sqrt(1 - a)\<close> is a number, and the exact distance is half the circumference.
\<close>

lemma calculateDistance_antipodal_exact:
  "calculateDistance 0.08 0 (- 0.08) 180 = 6371000 * pi"
proof -
  have x: "((- 0.08 - 0.08) * pi) / 180 / 2 = - ((0.08 * pi) / 180)" by simp
  have y: "((- 0.08) * pi) / 180 = - ((0.08 * pi) / 180)" by simp
  have l: "((180 - 0) * pi) / 180 / 2 = pi / 2" by simp
  have a: "sin (((- 0.08 - 0.08) * pi) / 180 / 2) * sin (((- 0.08 - 0.08) * pi) / 180 / 2)
             + cos ((0.08 * pi) / 180) * cos (((- 0.08) * pi) / 180)
               * sin (((180 - 0) * pi) / 180 / 2) * sin (((180 - 0) * pi) / 180 / 2) = 1"
    unfolding x y l
    using sin_cos_squared_add[of "(0.08 * pi) / 180"]
    by (simp add: power2_eq_square)
  show ?thesis
    unfolding calculateDistance_def Let_def a
    by (simp add: atan2_def)
qed

lemma arctan_le_self:
  fixes x :: real
  assumes "0 \<le> x"
  shows "arctan x \<le> x"
proof -
  have "(\<lambda>t. t - arctan t) 0 \<le> (\<lambda>t. t - arctan t) x"
  proof (rule DERIV_nonneg_imp_nondecreasing[OF assms])
    fix t :: real
    assume "0 \<le> t" "t \<le> x"
    have d: "((\<lambda>t. t - arctan t) has_real_derivative (1 - inverse (1 + t\<^sup>2))) (at t)"
      by (auto intro!: derivative_eq_intros)
    have "inverse (1 + t\<^sup>2) \<le> 1"
      by (simp add: inverse_le_1_iff)
    then have "0 \<le> 1 - inverse (1 + t\<^sup>2)" by simp
    with d show "\<exists>y. ((\<lambda>t. t - arctan t) has_real_derivative y) (at t) \<and> 0 \<le> y"
      by blast
  qed
  then show ?thesis by simp
qed

lemma haversine_small:
  fixes s1 s2 k :: real
  assumes s1: "\<bar>s1\<bar> \<le> 1 / 900000" and s2: "\<bar>s2\<bar> \<le> 1 / 900000"
    and k: "0 \<le> k" "k \<le> 1"
  shows "6371000 * (2 * atan2 (sqrt (s1 * s1 + k * s2 * s2)) (sqrt (1 - (s1 * s1 + k * s2 * s2)))) \<le> 100"
proof -
  define a where "a = s1 * s1 + k * s2 * s2"
  have sq1: "s1 * s1 \<le> (1 / 900000) * (1 / 900000)"
  proof -
    have "\<bar>s1\<bar> * \<bar>s1\<bar> \<le> (1 / 900000) * (1 / 900000)"
      using s1 by (intro mult_mono) auto
    then show ?thesis by simp
  qed
  have sq2: "s2 * s2 \<le> (1 / 900000) * (1 / 900000)"
  proof -
    have "\<bar>s2\<bar> * \<bar>s2\<bar> \<le> (1 / 900000) * (1 / 900000)"
      using s2 by (intro mult_mono) auto
    then show ?thesis by simp
  qed
  have "k * (s2 * s2) \<le> 1 * (s2 * s2)"
    using k by (intro mult_right_mono) auto
  then have ks: "k * s2 * s2 \<le> (1 / 900000) * (1 / 900000)"
    using sq2 by (simp add: mult.assoc)
  have a0: "0 \<le> a"
    unfolding a_def using k by (simp add: mult.assoc)
  have a1: "a \<le> (1 / 600000)\<^sup>2"
    unfolding a_def using sq1 ks by (simp add: power2_eq_square)
  have ra: "sqrt a \<le> 1 / 600000"
    by (rule real_le_lsqrt) (use a1 in simp_all)
  have "1 / 4 \<le> 1 - a" using a1 by (simp add: power2_eq_square)
  then have "sqrt (1 / 4) \<le> sqrt (1 - a)" by (simp only: real_sqrt_le_iff)
  moreover have "sqrt (1 / 4) = 1 / 2"
    by (simp add: real_sqrt_divide)
  ultimately have rb: "1 / 2 \<le> sqrt (1 - a)" by simp
  then have pos: "0 < sqrt (1 - a)" by linarith
  have "sqrt a / sqrt (1 - a) \<le> (1 / 600000) / (1 / 2)"
    using ra rb by (intro frac_le) auto
  then have t: "sqrt a / sqrt (1 - a) \<le> 1 / 300000" by simp
  have t0: "0 \<le> sqrt a / sqrt (1 - a)" using a0 pos by simp
  have "atan2 (sqrt a) (sqrt (1 - a)) = arctan (sqrt a / sqrt (1 - a))"
    using pos by (simp add: atan2_def)
  also have "\<dots> \<le> sqrt a / sqrt (1 - a)" by (rule arctan_le_self[OF t0])
  also have "\<dots> \<le> 1 / 300000" by (rule t)
  finally have "atan2 (sqrt a) (sqrt (1 - a)) \<le> 1 / 300000" .
  then show ?thesis unfolding a_def by simp
qed

lemma half_angle_small:
  fixes d :: real
  assumes "\<bar>d\<bar> \<le> 1 / 10000"
  shows "\<bar>sin ((d * pi) / 180 / 2)\<bar> \<le> 1 / 900000"
proof -
  have "\<bar>sin ((d * pi) / 180 / 2)\<bar> \<le> \<bar>(d * pi) / 180 / 2\<bar>"
    by (rule abs_sin_x_le_abs_x)
  also have "\<dots> = \<bar>d\<bar> * pi / 360" by (simp add: abs_mult)
  also have "\<dots> \<le> (1 / 10000) * 4 / 360"
    using assms pi_less_4 by (intro divide_right_mono mult_mono) auto
  also have "\<dots> = 1 / 900000" by simp
  finally show ?thesis .
qed

lemma calculateDistance_close:
  fixes lat1 lon1 lat2 lon2 :: real
  assumes "\<bar>lat1\<bar> \<le> 90" "\<bar>lat2\<bar> \<le> 90"
    and "\<bar>lat2 - lat1\<bar> \<le> 1 / 10000" "\<bar>lon2 - lon1\<bar> \<le> 1 / 10000"
  shows "calculateDistance lat1 lon1 lat2 lon2 \<le> 100"
proof -
  have c1: "0 \<le> cos ((lat1 * pi) / 180)"
  proof (rule cos_ge_zero)
    have "\<bar>(lat1 * pi) / 180\<bar> = \<bar>lat1\<bar> * pi / 180" by (simp add: abs_mult)
    also have "\<dots> \<le> 90 * pi / 180" using assms(1) by (intro divide_right_mono mult_right_mono) auto
    finally have "\<bar>(lat1 * pi) / 180\<bar> \<le> pi / 2" by simp
    then show "- (pi / 2) \<le> (lat1 * pi) / 180" "(lat1 * pi) / 180 \<le> pi / 2" by linarith+
  qed
  have c2: "0 \<le> cos ((lat2 * pi) / 180)"
  proof (rule cos_ge_zero)
    have "\<bar>(lat2 * pi) / 180\<bar> = \<bar>lat2\<bar> * pi / 180" by (simp add: abs_mult)
    also have "\<dots> \<le> 90 * pi / 180" using assms(2) by (intro divide_right_mono mult_right_mono) auto
    finally have "\<bar>(lat2 * pi) / 180\<bar> \<le> pi / 2" by simp
    then show "- (pi / 2) \<le> (lat2 * pi) / 180" "(lat2 * pi) / 180 \<le> pi / 2" by linarith+
  qed
  have k0: "0 \<le> cos ((lat1 * pi) / 180) * cos ((lat2 * pi) / 180)"
    using c1 c2 by simp
  have k1: "cos ((lat1 * pi) / 180) * cos ((lat2 * pi) / 180) \<le> 1"
    using c1 c2 by (metis cos_le_one mult_le_one)
  show ?thesis
    unfolding calculateDistance_def Let_def
    using haversine_small[OF half_angle_small[OF assms(3)] half_angle_small[OF assms(4)] k0 k1]
    by simp
qed


section \<open>Effects of the store operations\<close>

lemma dumpVerification_create_Inr:
  assumes "dumpVerification_create env r u s = Inr s1"
  shows "s1 = s\<lparr>dumpVerifications := dumpVerifications s @ [(r, u)]\<rparr>"
    and "verificationUnique env \<Longrightarrow> (r, u) \<notin> set (dumpVerifications s)"
  using assms by (auto simp: dumpVerification_create_def split: if_splits)

lemma dumpReport_update_Inr:
  assumes "dumpReport_update r st s = Inr s1"
  shows "s1 = s\<lparr>dumpReports := map (\<lambda>d. if id_r d = r then d\<lparr>status := st\<rparr> else d) (dumpReports s)\<rparr>"
    and "r \<in> id_r ` set (dumpReports s)"
  using assms by (auto simp: dumpReport_update_def split: if_splits)

lemma awardTo_eq:
  "awardTo env m u = m(u \<mapsto>
     (case m u of
        None \<Rightarrow> \<lparr>score = REPUTATION_PER_VERIFIED env, verifiedReports = 1, falseReports = 0\<rparr>
      | Some x \<Rightarrow> x\<lparr>score := score x + REPUTATION_PER_VERIFIED env,
                     verifiedReports := verifiedReports x + 1\<rparr>))"
  by (simp add: awardTo_def reputationScore_upsert_def initialStore_def)

lemma reputationScore_upsert_fields [simp]:
  "photoHashes (reputationScore_upsert env r u s) = photoHashes s"
  "dumpReports (reputationScore_upsert env r u s) = dumpReports s"
  "dumpVerifications (reputationScore_upsert env r u s) = dumpVerifications s"
  "awardLog (reputationScore_upsert env r u s) = awardLog s @ [(r, u)]"
  "reputationScores (reputationScore_upsert env r u s) = awardTo env (reputationScores s) u"
  by (simp_all add: reputationScore_upsert_def awardTo_eq)

lemma awardVerifiers_photoHashes [simp]:
  "photoHashes (awardVerifiers env r vs s) = photoHashes s"
  by (induction vs arbitrary: s) simp_all

lemma awardVerifiers_dumpReports [simp]:
  "dumpReports (awardVerifiers env r vs s) = dumpReports s"
  by (induction vs arbitrary: s) simp_all

lemma awardVerifiers_dumpVerifications [simp]:
  "dumpVerifications (awardVerifiers env r vs s) = dumpVerifications s"
  by (induction vs arbitrary: s) simp_all

lemma awardVerifiers_awardLog [simp]:
  "awardLog (awardVerifiers env r vs s) = awardLog s @ map (\<lambda>v. (r, snd v)) vs"
  by (induction vs arbitrary: s) simp_all

lemma awardVerifiers_reputationScores [simp]:
  "reputationScores (awardVerifiers env r vs s)
     = foldl (awardTo env) (reputationScores s) (map snd vs)"
  by (induction vs arbitrary: s) simp_all

lemma map_retag_filter:
  "map (\<lambda>v. (r, snd v)) (filter (\<lambda>v. fst v = r) xs) = filter (\<lambda>v. fst v = r) xs"
  by (induction xs) auto

text \<open>The three ways in which one pass of the first loop can succeed.\<close>

lemma verifyOne_cases:
  assumes "verifyOne env u n s = Inr s1"
  obtains
    (skip) "list_ex (\<lambda>v. snd v = u) (snd n)" "s1 = s"
  | (link) "\<not> list_ex (\<lambda>v. snd v = u) (snd n)"
      "verificationUnique env \<longrightarrow> (id_r (fst n), u) \<notin> set (dumpVerifications s)"
      "status (fst n) \<noteq> UNVERIFIED
         \<or> \<not> 2 \<le> length (filter (\<lambda>v. fst v = id_r (fst n)) (dumpVerifications s @ [(id_r (fst n), u)]))"
      "s1 = s\<lparr>dumpVerifications := dumpVerifications s @ [(id_r (fst n), u)]\<rparr>"
  | (flip) "\<not> list_ex (\<lambda>v. snd v = u) (snd n)"
      "verificationUnique env \<longrightarrow> (id_r (fst n), u) \<notin> set (dumpVerifications s)"
      "status (fst n) = UNVERIFIED"
      "id_r (fst n) \<in> id_r ` set (dumpReports s)"
      "s1 = awardVerifiers env (id_r (fst n))
              (filter (\<lambda>v. fst v = id_r (fst n)) (dumpVerifications s @ [(id_r (fst n), u)]))
              (s\<lparr>dumpVerifications := dumpVerifications s @ [(id_r (fst n), u)],
                 dumpReports := map (\<lambda>d. if id_r d = id_r (fst n) then d\<lparr>status := VERIFIED\<rparr> else d)
                                  (dumpReports s)\<rparr>)"
proof (cases "list_ex (\<lambda>v. snd v = u) (snd n)")
  case True
  with assms have "s1 = s" by (simp add: verifyOne_def)
  with True show ?thesis by (rule skip)
next
  case False
  from assms False obtain s' where c: "dumpVerification_create env (id_r (fst n)) u s = Inr s'"
    by (auto simp: verifyOne_def split: sum.splits)
  note s' = dumpVerification_create_Inr[OF c]
  show ?thesis
  proof (cases "2 \<le> dumpVerification_count s' (id_r (fst n)) \<and> status (fst n) = UNVERIFIED")
    case True
    with assms False c obtain s2 where
      up: "dumpReport_update (id_r (fst n)) VERIFIED s' = Inr s2"
      and s1: "s1 = awardVerifiers env (id_r (fst n)) (dumpVerification_findMany s2 (id_r (fst n))) s2"
      by (auto simp: verifyOne_def split: sum.splits)
    note s2 = dumpReport_update_Inr[OF up]
    show ?thesis
    proof (rule flip)
      show "\<not> list_ex (\<lambda>v. snd v = u) (snd n)" by (rule False)
      show "verificationUnique env \<longrightarrow> (id_r (fst n), u) \<notin> set (dumpVerifications s)"
        using s'(2) by blast
      show "status (fst n) = UNVERIFIED" using True by simp
      show "id_r (fst n) \<in> id_r ` set (dumpReports s)"
        using s2(2) by (simp add: s'(1))
      show "s1 = awardVerifiers env (id_r (fst n))
              (filter (\<lambda>v. fst v = id_r (fst n)) (dumpVerifications s @ [(id_r (fst n), u)]))
              (s\<lparr>dumpVerifications := dumpVerifications s @ [(id_r (fst n), u)],
                 dumpReports := map (\<lambda>d. if id_r d = id_r (fst n) then d\<lparr>status := VERIFIED\<rparr> else d)
                                  (dumpReports s)\<rparr>)"
        unfolding s1 by (simp add: s2(1) s'(1) dumpVerification_findMany_def)
    qed
  next
    case nf: False
    with assms False c have "s1 = s'"
      by (auto simp: verifyOne_def split: sum.splits)
    show ?thesis
    proof (rule link)
      show "\<not> list_ex (\<lambda>v. snd v = u) (snd n)" by (rule False)
      show "verificationUnique env \<longrightarrow> (id_r (fst n), u) \<notin> set (dumpVerifications s)"
        using s'(2) by blast
      show "status (fst n) \<noteq> UNVERIFIED
         \<or> \<not> 2 \<le> length (filter (\<lambda>v. fst v = id_r (fst n)) (dumpVerifications s @ [(id_r (fst n), u)]))"
        using nf by (auto simp: s'(1) dumpVerification_count_def dumpVerification_findMany_def)
      show "s1 = s\<lparr>dumpVerifications := dumpVerifications s @ [(id_r (fst n), u)]\<rparr>"
        using \<open>s1 = s'\<close> s'(1) by simp
    qed
  qed
qed

lemma linkCreators_Inr:
  assumes "linkCreators env r ns s = Inr s1"
  shows "s1 = s\<lparr>dumpVerifications := dumpVerifications s @ map (\<lambda>n. (r, reporterId (fst n))) ns\<rparr>"
  using assms
proof (induction ns arbitrary: s)
  case Nil
  then show ?case by simp
next
  case (Cons n ns)
  from Cons.prems obtain s' where c: "dumpVerification_create env r (reporterId (fst n)) s = Inr s'"
    and rest: "linkCreators env r ns s' = Inr s1"
    by (auto split: sum.splits)
  show ?case
    using Cons.IH[OF rest] by (simp add: dumpVerification_create_Inr(1)[OF c])
qed

lemma linkCreators_distinct:
  assumes "linkCreators env r ns s = Inr s1" "verificationUnique env" "distinct (dumpVerifications s)"
  shows "distinct (dumpVerifications s1)"
  using assms
proof (induction ns arbitrary: s)
  case Nil
  then show ?case by simp
next
  case (Cons n ns)
  from Cons.prems(1) obtain s' where c: "dumpVerification_create env r (reporterId (fst n)) s = Inr s'"
    and rest: "linkCreators env r ns s' = Inr s1"
    by (auto split: sum.splits)
  have "distinct (dumpVerifications s')"
    using dumpVerification_create_Inr[OF c] Cons.prems(2,3) by simp
  then show ?case
    using Cons.IH[OF rest Cons.prems(2)] by simp
qed


section \<open>The store invariant\<close>

lemma ids_distinct:
  assumes "map id_r ds = [0..<length ds]"
  shows "distinct (map id_r ds)"
  by (simp add: assms)

lemma ids_inj:
  assumes "map id_r ds = [0..<length ds]" "d \<in> set ds" "d' \<in> set ds" "id_r d = id_r d'"
  shows "d = d'"
proof -
  have "inj_on id_r (set ds)"
    using ids_distinct[OF assms(1)] by (simp add: distinct_map)
  then show ?thesis using assms(2-4) by (auto dest: inj_onD)
qed

lemma ids_bound:
  assumes "map id_r ds = [0..<length ds]" "d \<in> set ds"
  shows "id_r d < length ds"
proof -
  have "id_r d \<in> set (map id_r ds)" using assms(2) by simp
  then show ?thesis by (simp only: assms(1)) simp
qed

lemma verifiersOf_finite [simp]: "finite (verifiersOf s r)"
proof -
  have "verifiersOf s r \<subseteq> snd ` set (dumpVerifications s)"
    by (force simp: verifiersOf_def)
  then show ?thesis by (rule finite_subset) simp
qed

lemma verifiersOf_image:
  "verifiersOf s r = snd ` set (dumpVerification_findMany s r)"
  by (force simp: verifiersOf_def dumpVerification_findMany_def)

lemma card_verifiersOf_le: "card (verifiersOf s r) \<le> dumpVerification_count s r"
proof -
  have "card (snd ` set (dumpVerification_findMany s r)) \<le> card (set (dumpVerification_findMany s r))"
    by (rule card_image_le) simp
  also have "\<dots> \<le> length (dumpVerification_findMany s r)"
    by (rule card_length)
  finally show ?thesis
    by (simp add: verifiersOf_image dumpVerification_count_def)
qed

lemma card_verifiersOf_eq:
  assumes "distinct (dumpVerifications s)"
  shows "dumpVerification_count s r = card (verifiersOf s r)"
proof -
  have d: "distinct (dumpVerification_findMany s r)"
    using assms by (simp add: dumpVerification_findMany_def)
  have "inj_on snd (set (dumpVerification_findMany s r))"
    by (rule inj_onI) (auto simp: dumpVerification_findMany_def prod_eq_iff)
  then have "card (snd ` set (dumpVerification_findMany s r)) = card (set (dumpVerification_findMany s r))"
    by (rule card_image)
  also have "\<dots> = length (dumpVerification_findMany s r)"
    using d by (rule distinct_card)
  finally show ?thesis
    by (simp add: verifiersOf_image dumpVerification_count_def)
qed

lemma two_le_card:
  assumes "finite S" "a \<in> S" "b \<in> S" "a \<noteq> b"
  shows "2 \<le> card S"
proof -
  have "card {a, b} \<le> card S"
    using assms by (intro card_mono) auto
  then show ?thesis using assms(4) by simp
qed

lemma count_list_filter:
  "count_list (filter P xs) x = (if P x then count_list xs x else 0)"
  by (induction xs) auto

lemma storeInvI:
  assumes "map id_r (dumpReports s) = [0..<length (dumpReports s)]"
    and "\<And>v. v \<in> set (dumpVerifications s) \<Longrightarrow> fst v < length (dumpReports s)"
    and "\<And>d. d \<in> set (dumpReports s) \<Longrightarrow> id_r d \<notin> X \<Longrightarrow>
            (id_r d, reporterId d) \<in> set (dumpVerifications s)"
    and "\<And>d. d \<in> set (dumpReports s) \<Longrightarrow> id_r d \<notin> X \<Longrightarrow>
            (status d = VERIFIED) = (2 \<le> card (verifiersOf s (id_r d)))"
    and "\<And>a. a \<in> set (awardLog s) \<Longrightarrow> \<exists>d \<in> set (dumpReports s). id_r d = fst a \<and> status d = VERIFIED"
    and "set (awardLog s) \<subseteq> set (dumpVerifications s)"
    and "verificationUnique env \<Longrightarrow> distinct (dumpVerifications s)"
    and "verificationUnique env \<Longrightarrow> distinct (awardLog s)"
    and "\<And>p. count_list (awardLog s) p \<le> count_list (dumpVerifications s) p"
  shows "storeInv env X s"
  unfolding storeInv_def using assms by blast

lemma storeInvD:
  assumes "storeInv env X s"
  shows "map id_r (dumpReports s) = [0..<length (dumpReports s)]"
    and "\<And>v. v \<in> set (dumpVerifications s) \<Longrightarrow> fst v < length (dumpReports s)"
    and "\<And>d. d \<in> set (dumpReports s) \<Longrightarrow> id_r d \<notin> X \<Longrightarrow>
            (id_r d, reporterId d) \<in> set (dumpVerifications s)"
    and "\<And>d. d \<in> set (dumpReports s) \<Longrightarrow> id_r d \<notin> X \<Longrightarrow>
            (status d = VERIFIED) = (2 \<le> card (verifiersOf s (id_r d)))"
    and "\<And>a. a \<in> set (awardLog s) \<Longrightarrow> \<exists>d \<in> set (dumpReports s). id_r d = fst a \<and> status d = VERIFIED"
    and "set (awardLog s) \<subseteq> set (dumpVerifications s)"
    and "verificationUnique env \<Longrightarrow> distinct (dumpVerifications s)"
    and "verificationUnique env \<Longrightarrow> distinct (awardLog s)"
    and "\<And>p. count_list (awardLog s) p \<le> count_list (dumpVerifications s) p"
  using assms unfolding storeInv_def by blast+

lemma initialStore_inv: "storeInv env {} (initialStore m)"
  by (simp add: storeInv_def initialStore_def)

subsection \<open>One pass of the first loop\<close>

lemma verifiersOf_link:
  "verifiersOf (s\<lparr>dumpVerifications := dumpVerifications s @ [(r, u)]\<rparr>) r'
     = (if r' = r then insert u (verifiersOf s r') else verifiersOf s r')"
  by (auto simp: verifiersOf_def)

lemma verifiersOf_rows:
  assumes "dumpVerifications s' = dumpVerifications s"
  shows "verifiersOf s' r = verifiersOf s r"
  by (simp add: verifiersOf_def assms)

lemma verifyOne_keeps_report:
  assumes "verifyOne env u n s = Inr s1" "d \<in> set (dumpReports s)" "id_r d \<noteq> id_r (fst n)"
  shows "d \<in> set (dumpReports s1)"
  using assms(1)
proof (cases rule: verifyOne_cases)
  case skip
  then show ?thesis using assms(2) by simp
next
  case link
  then show ?thesis using assms(2) by simp
next
  case flip
  let ?f = "\<lambda>d. if id_r d = id_r (fst n) then d\<lparr>status := VERIFIED\<rparr> else d"
  have "?f d \<in> ?f ` set (dumpReports s)"
    using assms(2) by (rule imageI)
  moreover have "?f d = d"
    using assms(3) by simp
  ultimately have "d \<in> ?f ` set (dumpReports s)" by simp
  then show ?thesis by (simp add: flip(5))
qed

lemma verifyOne_storeInv:
  assumes v: "verifyOne env u n s = Inr s1"
    and inv: "storeInv env X s"
    and n: "fst n \<in> set (dumpReports s)" "reporterId (fst n) \<noteq> u" "id_r (fst n) \<notin> X"
  shows "storeInv env X s1"
proof -
  note I = storeInvD[OF inv]
  let ?N = "id_r (fst n)"
  have Nlt: "?N < length (dumpReports s)" by (rule ids_bound[OF I(1) n(1)])
  have author: "reporterId (fst n) \<in> verifiersOf s ?N"
    using I(3)[OF n(1) n(3)] by (simp add: verifiersOf_def)
  have two: "2 \<le> card (insert u (verifiersOf s ?N))"
    by (rule two_le_card[of _ u "reporterId (fst n)"]) (use author n(2) in auto)
  have only: "d = fst n" if "d \<in> set (dumpReports s)" "id_r d = ?N" for d
    using ids_inj[OF I(1) that(1) n(1) that(2)] .
  from v show ?thesis
  proof (cases rule: verifyOne_cases)
    case skip
    then show ?thesis using inv by simp
  next
    case link
    let ?s1 = "s\<lparr>dumpVerifications := dumpVerifications s @ [(?N, u)]\<rparr>"
    have cnt: "card (verifiersOf ?s1 ?N) \<le> length (filter (\<lambda>v. fst v = ?N) (dumpVerifications s @ [(?N, u)]))"
      using card_verifiersOf_le[of ?s1 ?N]
      by (simp add: dumpVerification_count_def dumpVerification_findMany_def)
    have ver: "status (fst n) = VERIFIED"
    proof (cases "status (fst n)")
      case UNVERIFIED
      with link(3) cnt two show ?thesis by (simp add: verifiersOf_link)
    qed simp
    have "storeInv env X ?s1"
    proof (rule storeInvI)
      show "map id_r (dumpReports ?s1) = [0..<length (dumpReports ?s1)]"
        using I(1) by simp
      show "fst x < length (dumpReports ?s1)" if "x \<in> set (dumpVerifications ?s1)" for x
        using that I(2)[of x] Nlt by auto
      show "(id_r d, reporterId d) \<in> set (dumpVerifications ?s1)"
        if "d \<in> set (dumpReports ?s1)" "id_r d \<notin> X" for d
        using that I(3) by simp
      show "(status d = VERIFIED) = (2 \<le> card (verifiersOf ?s1 (id_r d)))"
        if "d \<in> set (dumpReports ?s1)" "id_r d \<notin> X" for d
      proof (cases "id_r d = ?N")
        case True
        then have "d = fst n" using only that(1) by simp
        then show ?thesis using ver two by (simp add: verifiersOf_link)
      next
        case False
        then show ?thesis using I(4) that by (simp add: verifiersOf_link)
      qed
      show "\<exists>d \<in> set (dumpReports ?s1). id_r d = fst a \<and> status d = VERIFIED"
        if "a \<in> set (awardLog ?s1)" for a
        using that I(5) by simp
      show "set (awardLog ?s1) \<subseteq> set (dumpVerifications ?s1)"
        using I(6) by auto
      show "distinct (dumpVerifications ?s1)" if "verificationUnique env"
        using that I(7) link(2) by simp
      show "distinct (awardLog ?s1)" if "verificationUnique env"
        using that I(8) by simp
      show "count_list (awardLog ?s1) p \<le> count_list (dumpVerifications ?s1) p" for p
        using I(9)[of p] by simp
    qed
    then show ?thesis by (simp add: link(4))
  next
    case flip
    let ?f = "\<lambda>d. if id_r d = ?N then d\<lparr>status := VERIFIED\<rparr> else d"
    let ?rows = "dumpVerifications s @ [(?N, u)]"
    have idf: "id_r (?f d) = id_r d" "reporterId (?f d) = reporterId d" for d by simp_all
    have rep: "dumpReports s1 = map ?f (dumpReports s)" by (simp add: flip(5))
    have rows: "dumpVerifications s1 = ?rows" by (simp add: flip(5))
    have log: "awardLog s1 = awardLog s @ filter (\<lambda>v. fst v = ?N) ?rows"
      unfolding flip(5) awardVerifiers_awardLog map_retag_filter by simp
    have vo: "verifiersOf s1 r = (if r = ?N then insert u (verifiersOf s r) else verifiersOf s r)" for r
      using rows by (auto simp: verifiersOf_def)
    show ?thesis
    proof (rule storeInvI)
      show "map id_r (dumpReports s1) = [0..<length (dumpReports s1)]"
        using I(1) by (simp add: rep o_def idf)
      show "fst x < length (dumpReports s1)" if "x \<in> set (dumpVerifications s1)" for x
        using that I(2)[of x] Nlt by (auto simp: rep rows)
      show "(id_r d, reporterId d) \<in> set (dumpVerifications s1)"
        if "d \<in> set (dumpReports s1)" "id_r d \<notin> X" for d
      proof -
        from that(1) obtain d0 where d0: "d0 \<in> set (dumpReports s)" "d = ?f d0"
          by (auto simp: rep)
        then have "(id_r d0, reporterId d0) \<in> set (dumpVerifications s)"
          using I(3)[of d0] that(2) by (simp split: if_splits)
        then show ?thesis using d0(2) by (simp add: rows split: if_splits)
      qed
      show "(status d = VERIFIED) = (2 \<le> card (verifiersOf s1 (id_r d)))"
        if "d \<in> set (dumpReports s1)" "id_r d \<notin> X" for d
      proof -
        from that(1) obtain d0 where d0: "d0 \<in> set (dumpReports s)" "d = ?f d0"
          by (auto simp: rep)
        show ?thesis
        proof (cases "id_r d0 = ?N")
          case True
          then show ?thesis using d0(2) two by (simp add: vo)
        next
          case False
          then show ?thesis using I(4)[OF d0(1)] that(2) d0(2) by (simp add: vo)
        qed
      qed
      show "\<exists>d \<in> set (dumpReports s1). id_r d = fst a \<and> status d = VERIFIED"
        if "a \<in> set (awardLog s1)" for a
      proof (cases "a \<in> set (awardLog s)")
        case True
        then obtain d0 where d0: "d0 \<in> set (dumpReports s)" "id_r d0 = fst a" "status d0 = VERIFIED"
          using I(5) by blast
        have "?f d0 \<in> set (dumpReports s1)" using d0(1) by (simp add: rep)
        moreover have "id_r (?f d0) = fst a \<and> status (?f d0) = VERIFIED" using d0(2,3) by simp
        ultimately show ?thesis by blast
      next
        case False
        with that have a: "fst a = ?N" by (auto simp: log)
        have "?f (fst n) \<in> set (dumpReports s1)" using n(1) by (simp add: rep)
        moreover have "id_r (?f (fst n)) = fst a \<and> status (?f (fst n)) = VERIFIED"
          using a by simp
        ultimately show ?thesis by (rule bexI[rotated])
      qed
      show "set (awardLog s1) \<subseteq> set (dumpVerifications s1)"
        using I(6) by (auto simp: log rows)
      show "distinct (dumpVerifications s1)" if "verificationUnique env"
        using that I(7) flip(2) by (simp add: rows)
      have nolog: "fst a \<noteq> ?N" if "a \<in> set (awardLog s)" for a
      proof
        assume eq: "fst a = ?N"
        from I(5)[OF that] obtain d0 where d0: "d0 \<in> set (dumpReports s)" "id_r d0 = fst a" "status d0 = VERIFIED"
          by blast
        then have "d0 = fst n" using only eq by simp
        then show False using d0(3) flip(3) by simp
      qed
      show "distinct (awardLog s1)" if "verificationUnique env"
      proof -
        have d1: "distinct ?rows" using that I(7) flip(2) by simp
        have "set (awardLog s) \<inter> set (filter (\<lambda>v. fst v = ?N) ?rows) = {}"
          using nolog by fastforce
        moreover have "distinct (filter (\<lambda>v. fst v = ?N) ?rows)"
          using d1 by (rule distinct_filter)
        ultimately show ?thesis
          unfolding log using I(8)[OF \<open>verificationUnique env\<close>]
          by (simp only: distinct_append)
      qed
      show "count_list (awardLog s1) p \<le> count_list (dumpVerifications s1) p" for p
      proof (cases "fst p = ?N")
        case True
        then have "p \<notin> set (awardLog s)" using nolog by blast
        then have "count_list (awardLog s) p = 0" by simp
        then show ?thesis using True by (simp add: log rows count_list_filter)
      next
        case False
        then show ?thesis using I(9)[of p] by (simp add: log rows count_list_filter)
      qed
    qed
  qed
qed


subsection \<open>The loops\<close>

lemma verifyClustered_storeInv:
  assumes "verifyClustered env u ns s = Inr s'" "storeInv env X s"
    and "\<forall>n \<in> set ns. fst n \<in> set (dumpReports s) \<and> reporterId (fst n) \<noteq> u \<and> id_r (fst n) \<notin> X"
    and "distinct (map (\<lambda>n. id_r (fst n)) ns)"
  shows "storeInv env X s'"
  using assms
proof (induction ns arbitrary: s)
  case Nil
  then show ?case by simp
next
  case (Cons n ns)
  from Cons.prems(1) obtain s1 where one: "verifyOne env u n s = Inr s1"
    and rest: "verifyClustered env u ns s1 = Inr s'"
    by (auto split: sum.splits)
  have inv1: "storeInv env X s1"
    using verifyOne_storeInv[OF one Cons.prems(2)] Cons.prems(3) by simp
  have "\<forall>m \<in> set ns. fst m \<in> set (dumpReports s1) \<and> reporterId (fst m) \<noteq> u \<and> id_r (fst m) \<notin> X"
  proof
    fix m assume m: "m \<in> set ns"
    have "id_r (fst n) \<notin> (\<lambda>n. id_r (fst n)) ` set ns" using Cons.prems(4) by simp
    then have "id_r (fst m) \<noteq> id_r (fst n)" using m by (metis imageI)
    moreover have "fst m \<in> set (dumpReports s)" using m Cons.prems(3) by simp
    ultimately have "fst m \<in> set (dumpReports s1)"
      using verifyOne_keeps_report[OF one] by blast
    then show "fst m \<in> set (dumpReports s1) \<and> reporterId (fst m) \<noteq> u \<and> id_r (fst m) \<notin> X"
      using m Cons.prems(3) by simp
  qed
  moreover have "distinct (map (\<lambda>n. id_r (fst n)) ns)" using Cons.prems(4) by simp
  ultimately show ?case using Cons.IH[OF rest inv1] by blast
qed

lemma verifyClustered_keeps_report:
  assumes "verifyClustered env u ns s = Inr s'" "d \<in> set (dumpReports s)"
    and "id_r d \<notin> (\<lambda>n. id_r (fst n)) ` set ns"
  shows "d \<in> set (dumpReports s')"
  using assms
proof (induction ns arbitrary: s)
  case Nil
  then show ?case by simp
next
  case (Cons n ns)
  from Cons.prems(1) obtain s1 where one: "verifyOne env u n s = Inr s1"
    and rest: "verifyClustered env u ns s1 = Inr s'"
    by (auto split: sum.splits)
  have "d \<in> set (dumpReports s1)"
    using verifyOne_keeps_report[OF one Cons.prems(2)] Cons.prems(3) by simp
  then show ?case using Cons.IH[OF rest] Cons.prems(3) by simp
qed

lemma verifyOne_rows:
  assumes "verifyOne env u n s = Inr s1"
  shows "dumpVerifications s1 = dumpVerifications s
           @ (if list_ex (\<lambda>v. snd v = u) (snd n) then [] else [(id_r (fst n), u)])"
  using assms by (cases rule: verifyOne_cases) simp_all

lemma verifyClustered_rows:
  assumes "verifyClustered env u ns s = Inr s'"
  shows "dumpVerifications s' = dumpVerifications s
           @ map (\<lambda>n. (id_r (fst n), u)) (filter (\<lambda>n. \<not> list_ex (\<lambda>v. snd v = u) (snd n)) ns)"
  using assms
proof (induction ns arbitrary: s)
  case Nil
  then show ?case by simp
next
  case (Cons n ns)
  from Cons.prems(1) obtain s1 where one: "verifyOne env u n s = Inr s1"
    and rest: "verifyClustered env u ns s1 = Inr s'"
    by (auto split: sum.splits)
  show ?case
    using Cons.IH[OF rest] verifyOne_rows[OF one] by simp
qed

lemma verifyOne_photoHashes:
  assumes "verifyOne env u n s = Inr s1"
  shows "photoHashes s1 = photoHashes s"
  using assms by (cases rule: verifyOne_cases) simp_all

lemma verifyClustered_photoHashes:
  assumes "verifyClustered env u ns s = Inr s'"
  shows "photoHashes s' = photoHashes s"
  using assms
proof (induction ns arbitrary: s)
  case Nil
  then show ?case by simp
next
  case (Cons n ns)
  from Cons.prems(1) obtain s1 where one: "verifyOne env u n s = Inr s1"
    and rest: "verifyClustered env u ns s1 = Inr s'"
    by (auto split: sum.splits)
  show ?case
    using Cons.IH[OF rest] verifyOne_photoHashes[OF one] by simp
qed

text \<open>
  What the first loop adds to the award trace: entries for clustered reports that were
  read as \<open>UNVERIFIED\<close>, and the reputation table follows the trace.
\<close>

lemma verifyOne_log:
  assumes "verifyOne env u n s = Inr s1"
  shows "\<exists>ys. awardLog s1 = awardLog s @ ys
           \<and> (\<forall>a \<in> set ys. fst a = id_r (fst n) \<and> status (fst n) = UNVERIFIED)
           \<and> reputationScores s1 = foldl (awardTo env) (reputationScores s) (map snd ys)"
  using assms
proof (cases rule: verifyOne_cases)
  case skip
  then show ?thesis by simp
next
  case link
  then show ?thesis by simp
next
  case flip
  let ?ys = "filter (\<lambda>v. fst v = id_r (fst n)) (dumpVerifications s @ [(id_r (fst n), u)])"
  have "awardLog s1 = awardLog s @ ?ys"
    unfolding flip(5) awardVerifiers_awardLog map_retag_filter by simp
  moreover have "\<forall>a \<in> set ?ys. fst a = id_r (fst n) \<and> status (fst n) = UNVERIFIED"
    using flip(3) by simp
  moreover have "reputationScores s1 = foldl (awardTo env) (reputationScores s) (map snd ?ys)"
    unfolding flip(5) awardVerifiers_reputationScores by simp
  ultimately show ?thesis by blast
qed

lemma verifyClustered_log:
  assumes "verifyClustered env u ns s = Inr s'"
  shows "\<exists>ys. awardLog s' = awardLog s @ ys
           \<and> (\<forall>a \<in> set ys. \<exists>n \<in> set ns. fst a = id_r (fst n) \<and> status (fst n) = UNVERIFIED)
           \<and> reputationScores s' = foldl (awardTo env) (reputationScores s) (map snd ys)"
  using assms
proof (induction ns arbitrary: s)
  case Nil
  then show ?case by simp
next
  case (Cons n ns)
  from Cons.prems(1) obtain s1 where one: "verifyOne env u n s = Inr s1"
    and rest: "verifyClustered env u ns s1 = Inr s'"
    by (auto split: sum.splits)
  from verifyOne_log[OF one] obtain ys where ys: "awardLog s1 = awardLog s @ ys"
    "\<forall>a \<in> set ys. fst a = id_r (fst n) \<and> status (fst n) = UNVERIFIED"
    "reputationScores s1 = foldl (awardTo env) (reputationScores s) (map snd ys)"
    by blast
  from Cons.IH[OF rest] obtain zs where zs: "awardLog s' = awardLog s1 @ zs"
    "\<forall>a \<in> set zs. \<exists>n \<in> set ns. fst a = id_r (fst n) \<and> status (fst n) = UNVERIFIED"
    "reputationScores s' = foldl (awardTo env) (reputationScores s1) (map snd zs)"
    by blast
  have "awardLog s' = awardLog s @ (ys @ zs)" using ys(1) zs(1) by simp
  moreover have "\<forall>a \<in> set (ys @ zs). \<exists>m \<in> set (n # ns). fst a = id_r (fst m) \<and> status (fst m) = UNVERIFIED"
    using ys(2) zs(2) by auto
  moreover have "reputationScores s' = foldl (awardTo env) (reputationScores s) (map snd (ys @ zs))"
    using ys(3) zs(3) by simp
  ultimately show ?case by blast
qed

lemma verifyOne_length:
  assumes "verifyOne env u n s = Inr s1"
  shows "length (dumpReports s1) = length (dumpReports s)"
  using assms by (cases rule: verifyOne_cases) simp_all

lemma verifyClustered_length:
  assumes "verifyClustered env u ns s = Inr s'"
  shows "length (dumpReports s') = length (dumpReports s)"
  using assms
proof (induction ns arbitrary: s)
  case Nil
  then show ?case by simp
next
  case (Cons n ns)
  from Cons.prems(1) obtain s1 where one: "verifyOne env u n s = Inr s1"
    and rest: "verifyClustered env u ns s1 = Inr s'"
    by (auto split: sum.splits)
  show ?case
    using Cons.IH[OF rest] verifyOne_length[OF one] by simp
qed


subsection \<open>The transaction\<close>

lemma start_storeInv:
  assumes inv: "storeInv env {} s"
    and r: "id_r r = length (dumpReports s)" "reporterId r = u" "status r = UNVERIFIED"
  shows "storeInv env {}
           (s\<lparr>photoHashes := P, dumpReports := dumpReports s @ [r],
              dumpVerifications := dumpVerifications s @ [(length (dumpReports s), u)]\<rparr>)"
    (is "storeInv env {} ?s3")
proof -
  note I = storeInvD[OF inv]
  let ?R = "length (dumpReports s)"
  have none: "verifiersOf s ?R = {}"
    using I(2) by (fastforce simp: verifiersOf_def)
  have vo: "verifiersOf ?s3 k = (if k = ?R then {u} else verifiersOf s k)" for k
    using none by (auto simp: verifiersOf_def)
  show ?thesis
  proof (rule storeInvI)
    show "map id_r (dumpReports ?s3) = [0..<length (dumpReports ?s3)]"
      using I(1) r(1) by simp
    show "fst x < length (dumpReports ?s3)" if "x \<in> set (dumpVerifications ?s3)" for x
      using that I(2)[of x] by auto
    show "(id_r d, reporterId d) \<in> set (dumpVerifications ?s3)"
      if "d \<in> set (dumpReports ?s3)" "id_r d \<notin> {}" for d
      using that I(3)[of d] r by auto
    show "(status d = VERIFIED) = (2 \<le> card (verifiersOf ?s3 (id_r d)))"
      if "d \<in> set (dumpReports ?s3)" "id_r d \<notin> {}" for d
    proof (cases "d \<in> set (dumpReports s)")
      case True
      then have "id_r d \<noteq> ?R" using ids_bound[OF I(1)] by fastforce
      then show ?thesis using I(4)[OF True] by (simp add: vo)
    next
      case False
      with that(1) have "d = r" by simp
      then show ?thesis using r by (simp add: vo)
    qed
    show "\<exists>d \<in> set (dumpReports ?s3). id_r d = fst a \<and> status d = VERIFIED"
      if "a \<in> set (awardLog ?s3)" for a
      using that I(5)[of a] by auto
    show "set (awardLog ?s3) \<subseteq> set (dumpVerifications ?s3)"
      using I(6) by auto
    show "distinct (dumpVerifications ?s3)" if "verificationUnique env"
      using I(7)[OF that] I(2)[of "(?R, u)"] by auto
    show "distinct (awardLog ?s3)" if "verificationUnique env"
      using I(8)[OF that] by simp
    show "count_list (awardLog ?s3) p \<le> count_list (dumpVerifications ?s3) p" for p
      using I(9)[of p] by simp
  qed
qed

lemma linkCreators_storeInv:
  assumes link: "linkCreators env R ns s = Inr s5"
    and inv: "storeInv env {} s" and R: "R < length (dumpReports s)"
  shows "storeInv env {R} s5"
proof -
  note I = storeInvD[OF inv]
  let ?new = "map (\<lambda>n. (R, reporterId (fst n))) ns"
  have s5: "s5 = s\<lparr>dumpVerifications := dumpVerifications s @ ?new\<rparr>"
    by (rule linkCreators_Inr[OF link])
  have vo: "verifiersOf s5 k = verifiersOf s k" if "k \<noteq> R" for k
    using that by (auto simp: s5 verifiersOf_def)
  show ?thesis
  proof (rule storeInvI)
    show "map id_r (dumpReports s5) = [0..<length (dumpReports s5)]"
      using I(1) by (simp add: s5)
    show "fst x < length (dumpReports s5)" if "x \<in> set (dumpVerifications s5)" for x
      using that I(2)[of x] R by (auto simp: s5)
    show "(id_r d, reporterId d) \<in> set (dumpVerifications s5)"
      if "d \<in> set (dumpReports s5)" "id_r d \<notin> {R}" for d
      using that I(3)[of d] by (simp add: s5)
    show "(status d = VERIFIED) = (2 \<le> card (verifiersOf s5 (id_r d)))"
      if "d \<in> set (dumpReports s5)" "id_r d \<notin> {R}" for d
    proof -
      have "d \<in> set (dumpReports s)" using that(1) by (simp add: s5)
      then show ?thesis using I(4)[of d] that(2) by (simp add: vo)
    qed
    show "\<exists>d \<in> set (dumpReports s5). id_r d = fst a \<and> status d = VERIFIED"
      if "a \<in> set (awardLog s5)" for a
      using that I(5)[of a] by (simp add: s5)
    show "set (awardLog s5) \<subseteq> set (dumpVerifications s5)"
      using I(6) by (auto simp: s5)
    show "distinct (dumpVerifications s5)" if "verificationUnique env"
      using linkCreators_distinct[OF link that I(7)[OF that]] .
    show "distinct (awardLog s5)" if "verificationUnique env"
      using I(8)[OF that] by (simp add: s5)
    show "count_list (awardLog s5) p \<le> count_list (dumpVerifications s5) p" for p
      using I(9)[of p] by (simp add: s5)
  qed
qed

lemma promote_storeInv:
  assumes inv: "storeInv env {N} s"
    and d: "d \<in> set (dumpReports s)" "id_r d = N" "status d = UNVERIFIED"
      "(N, reporterId d) \<in> set (dumpVerifications s)"
    and two: "2 \<le> card (verifiersOf s N)"
    and up: "dumpReport_update N VERIFIED s = Inr s6"
  shows "storeInv env {} (awardVerifiers env N (dumpVerification_findMany s6 N) s6)"
proof -
  note I = storeInvD[OF inv]
  define s' where "s' = awardVerifiers env N (dumpVerification_findMany s6 N) s6"
  let ?f = "\<lambda>d. if id_r d = N then d\<lparr>status := VERIFIED\<rparr> else d"
  have s6: "s6 = s\<lparr>dumpReports := map ?f (dumpReports s)\<rparr>"
    by (rule dumpReport_update_Inr(1)[OF up])
  have rep: "dumpReports s' = map ?f (dumpReports s)" by (simp add: s'_def s6)
  have rows: "dumpVerifications s' = dumpVerifications s" by (simp add: s'_def s6)
  have log: "awardLog s' = awardLog s @ filter (\<lambda>v. fst v = N) (dumpVerifications s)"
    unfolding s'_def awardVerifiers_awardLog dumpVerification_findMany_def map_retag_filter
    by (simp add: s6)
  have vo: "verifiersOf s' k = verifiersOf s k" for k
    using rows by (rule verifiersOf_rows)
  have only: "d0 = d" if "d0 \<in> set (dumpReports s)" "id_r d0 = N" for d0
    using ids_inj[OF I(1) that(1) d(1)] that(2) d(2) by simp
  have idf: "id_r (?f x) = id_r x" for x by simp
  have "storeInv env {} s'"
  proof (rule storeInvI)
    show "map id_r (dumpReports s') = [0..<length (dumpReports s')]"
      using I(1) by (simp add: rep o_def idf)
    show "fst x < length (dumpReports s')" if "x \<in> set (dumpVerifications s')" for x
      using that I(2)[of x] by (simp add: rep rows)
    show "(id_r d', reporterId d') \<in> set (dumpVerifications s')"
      if "d' \<in> set (dumpReports s')" "id_r d' \<notin> {}" for d'
    proof -
      from that(1) obtain d0 where d0: "d0 \<in> set (dumpReports s)" "d' = ?f d0"
        by (auto simp: rep)
      show ?thesis
      proof (cases "id_r d0 = N")
        case True
        then have "d0 = d" using only d0(1) by simp
        then show ?thesis using d0(2) d(2,4) by (simp add: rows)
      next
        case False
        then show ?thesis using I(3)[OF d0(1)] d0(2) by (simp add: rows)
      qed
    qed
    show "(status d' = VERIFIED) = (2 \<le> card (verifiersOf s' (id_r d')))"
      if "d' \<in> set (dumpReports s')" "id_r d' \<notin> {}" for d'
    proof -
      from that(1) obtain d0 where d0: "d0 \<in> set (dumpReports s)" "d' = ?f d0"
        by (auto simp: rep)
      show ?thesis
      proof (cases "id_r d0 = N")
        case True
        then show ?thesis using d0(2) two by (simp add: vo)
      next
        case False
        then show ?thesis using I(4)[OF d0(1)] d0(2) by (simp add: vo)
      qed
    qed
    show "\<exists>d' \<in> set (dumpReports s'). id_r d' = fst a \<and> status d' = VERIFIED"
      if "a \<in> set (awardLog s')" for a
    proof (cases "a \<in> set (awardLog s)")
      case True
      then obtain d0 where d0: "d0 \<in> set (dumpReports s)" "id_r d0 = fst a" "status d0 = VERIFIED"
        using I(5) by blast
      have "?f d0 \<in> set (dumpReports s')" using d0(1) by (simp add: rep)
      moreover have "id_r (?f d0) = fst a \<and> status (?f d0) = VERIFIED" using d0(2,3) by simp
      ultimately show ?thesis by (rule bexI[rotated])
    next
      case False
      with that have a: "fst a = N" by (auto simp: log)
      have "?f d \<in> set (dumpReports s')" using d(1) by (simp add: rep)
      moreover have "id_r (?f d) = fst a \<and> status (?f d) = VERIFIED"
        using a d(2) by simp
      ultimately show ?thesis by (rule bexI[rotated])
    qed
    show "set (awardLog s') \<subseteq> set (dumpVerifications s')"
      using I(6) by (auto simp: log rows)
    show "distinct (dumpVerifications s')" if "verificationUnique env"
      using I(7)[OF that] by (simp add: rows)
    have nolog: "fst a \<noteq> N" if "a \<in> set (awardLog s)" for a
    proof
      assume eq: "fst a = N"
      from I(5)[OF that] obtain d0 where d0: "d0 \<in> set (dumpReports s)" "id_r d0 = fst a" "status d0 = VERIFIED"
        by blast
      then have "d0 = d" using only eq by simp
      then show False using d0(3) d(3) by simp
    qed
    show "distinct (awardLog s')" if "verificationUnique env"
    proof -
      have "set (awardLog s) \<inter> set (filter (\<lambda>v. fst v = N) (dumpVerifications s)) = {}"
        using nolog by fastforce
      moreover have "distinct (filter (\<lambda>v. fst v = N) (dumpVerifications s))"
        using I(7)[OF \<open>verificationUnique env\<close>] by (rule distinct_filter)
      ultimately show ?thesis
        unfolding log using I(8)[OF \<open>verificationUnique env\<close>]
        by (simp only: distinct_append)
    qed
    show "count_list (awardLog s') p \<le> count_list (dumpVerifications s') p" for p
    proof (cases "fst p = N")
      case True
      then have "p \<notin> set (awardLog s)" using nolog by blast
      then have "count_list (awardLog s) p = 0" by simp
      then show ?thesis using True by (simp add: log rows count_list_filter)
    next
      case False
      then show ?thesis using I(9)[of p] by (simp add: log rows count_list_filter)
    qed
  qed
  then show ?thesis by (simp only: s'_def)
qed


lemma clustered_props:
  assumes "map id_r (dumpReports s) = [0..<length (dumpReports s)]"
    and cl_def: "cl = filterClustered env req (findNearbyReports s R u)"
  shows "\<forall>n \<in> set cl. fst n \<in> set (dumpReports s) \<and> reporterId (fst n) \<noteq> u \<and> id_r (fst n) \<noteq> R
            \<and> snd n = dumpVerification_findMany s (id_r (fst n))
            \<and> isWithinRadius (req_latitude req) (req_longitude req)
                 (latitude (fst n)) (longitude (fst n)) (GEO_CLUSTER_RADIUS env)"
    and "distinct (map (\<lambda>n. id_r (fst n)) cl)"
proof -
  show "\<forall>n \<in> set cl. fst n \<in> set (dumpReports s) \<and> reporterId (fst n) \<noteq> u \<and> id_r (fst n) \<noteq> R
            \<and> snd n = dumpVerification_findMany s (id_r (fst n))
            \<and> isWithinRadius (req_latitude req) (req_longitude req)
                 (latitude (fst n)) (longitude (fst n)) (GEO_CLUSTER_RADIUS env)"
    by (auto simp: cl_def filterClustered_def findNearbyReports_def)
  have "map (\<lambda>n. id_r (fst n)) cl
          = map id_r (filter (\<lambda>d. isWithinRadius (req_latitude req) (req_longitude req)
                                    (latitude d) (longitude d) (GEO_CLUSTER_RADIUS env))
                       (filter (\<lambda>d. id_r d \<noteq> R \<and> reporterId d \<noteq> u
                                     \<and> (status d = UNVERIFIED \<or> status d = VERIFIED))
                          (dumpReports s)))"
    by (simp add: cl_def filterClustered_def findNearbyReports_def filter_map o_def)
  moreover have "distinct (map id_r (dumpReports s))"
    by (rule ids_distinct[OF assms(1)])
  ultimately show "distinct (map (\<lambda>n. id_r (fst n)) cl)"
    by (simp add: distinct_map_filter)
qed

text \<open>The shape of a transaction that commits.\<close>

lemma reportDumpTx_cases:
  assumes "reportDumpTx env req sz h s = Inr (r, s')"
  obtains s3 cl where
    "r = \<lparr>id_r = length (dumpReports s), reporterId = req_userId req,
          latitude = req_latitude req, longitude = req_longitude req,
          photoUrl = req_photoBase64 req, photoHash = h, size_r = sz,
          description = req_description req, status = UNVERIFIED\<rparr>"
    "s3 = s\<lparr>photoHashes := photoHashes s @ [(h, req_userId req)],
             dumpReports := dumpReports s @ [r],
             dumpVerifications := dumpVerifications s @ [(length (dumpReports s), req_userId req)]\<rparr>"
    "h \<notin> fst ` set (photoHashes s)"
    "verificationUnique env \<longrightarrow> (length (dumpReports s), req_userId req) \<notin> set (dumpVerifications s)"
    "cl = filterClustered env req (findNearbyReports s3 (length (dumpReports s)) (req_userId req))"
    "(cl = [] \<and> s' = s3)
     \<or> (cl \<noteq> [] \<and>
         (\<exists>s4 s5. verifyClustered env (req_userId req) cl s3 = Inr s4
            \<and> linkCreators env (length (dumpReports s)) cl s4 = Inr s5
            \<and> ((\<not> 2 \<le> dumpVerification_count s5 (length (dumpReports s)) \<and> s' = s5)
               \<or> (2 \<le> dumpVerification_count s5 (length (dumpReports s))
                  \<and> (\<exists>s6. dumpReport_update (length (dumpReports s)) VERIFIED s5 = Inr s6
                        \<and> s' = awardVerifiers env (length (dumpReports s))
                                 (dumpVerification_findMany s6 (length (dumpReports s))) s6)))))"
proof -
  let ?u = "req_userId req"
  let ?R = "length (dumpReports s)"
  let ?r = "\<lparr>id_r = ?R, reporterId = ?u,
          latitude = req_latitude req, longitude = req_longitude req,
          photoUrl = req_photoBase64 req, photoHash = h, size_r = sz,
          description = req_description req, status = UNVERIFIED\<rparr>"
  let ?s1 = "s\<lparr>photoHashes := photoHashes s @ [(h, ?u)]\<rparr>"
  let ?s2 = "?s1\<lparr>dumpReports := dumpReports s @ [?r]\<rparr>"
  let ?s3 = "?s2\<lparr>dumpVerifications := dumpVerifications s @ [(?R, ?u)]\<rparr>"
  let ?cl = "filterClustered env req (findNearbyReports ?s3 ?R ?u)"
  have h: "h \<notin> fst ` set (photoHashes s)"
    using assms by (auto simp: reportDumpTx_def photoHash_create_def split: if_splits)
  then have p: "photoHash_create h ?u s = Inr ?s1"
    by (simp add: photoHash_create_def)
  have c: "dumpReport_create ?u (req_latitude req) (req_longitude req) (req_photoBase64 req) h sz
             (req_description req) ?s1 = (?r, ?s2)"
    by (simp add: dumpReport_create_def Let_def)
  from assms obtain s3 where v: "dumpVerification_create env ?R ?u ?s2 = Inr s3"
    by (auto simp: reportDumpTx_def p c split: sum.splits)
  have s3: "s3 = ?s3" using dumpVerification_create_Inr(1)[OF v] by simp
  have uq: "verificationUnique env \<longrightarrow> (?R, ?u) \<notin> set (dumpVerifications s)"
    using dumpVerification_create_Inr(2)[OF v] by simp
  have tx: "reportDumpTx env req sz h s
      = (if 0 < length ?cl then
           (case verifyClustered env ?u ?cl ?s3 of
              Inl e \<Rightarrow> Inl e
            | Inr s4 \<Rightarrow>
                (case linkCreators env ?R ?cl s4 of
                   Inl e \<Rightarrow> Inl e
                 | Inr s5 \<Rightarrow>
                     (if 2 \<le> dumpVerification_count s5 ?R then
                        (case dumpReport_update ?R VERIFIED s5 of
                           Inl e \<Rightarrow> Inl e
                         | Inr s6 \<Rightarrow>
                             Inr (?r, awardVerifiers env ?R (dumpVerification_findMany s6 ?R) s6))
                      else Inr (?r, s5))))
         else Inr (?r, ?s3))"
    using v unfolding s3 by (simp add: reportDumpTx_def p c Let_def cong: sum.case_cong if_cong)
  have r: "r = ?r"
    using assms unfolding tx by (auto split: if_splits sum.splits)
  have "(?cl = [] \<and> s' = ?s3)
     \<or> (?cl \<noteq> [] \<and>
         (\<exists>s4 s5. verifyClustered env ?u ?cl ?s3 = Inr s4
            \<and> linkCreators env ?R ?cl s4 = Inr s5
            \<and> ((\<not> 2 \<le> dumpVerification_count s5 ?R \<and> s' = s5)
               \<or> (2 \<le> dumpVerification_count s5 ?R
                  \<and> (\<exists>s6. dumpReport_update ?R VERIFIED s5 = Inr s6
                        \<and> s' = awardVerifiers env ?R (dumpVerification_findMany s6 ?R) s6)))))"
    using assms unfolding tx by (auto split: if_splits sum.splits)
  then show ?thesis
    using that[of ?s3 ?cl] r h uq by simp
qed


lemma find_by_id:
  assumes "distinct (map id_r ds)" "d \<in> set ds"
  shows "find (\<lambda>x. id_r x = id_r d) ds = Some d"
  using assms
proof (induction ds)
  case Nil
  then show ?case by simp
next
  case (Cons x xs)
  show ?case
  proof (cases "id_r x = id_r d")
    case True
    have "d \<notin> set xs"
    proof
      assume "d \<in> set xs"
      then have "id_r d \<in> set (map id_r xs)" by simp
      with Cons.prems(1) True show False by simp
    qed
    with Cons.prems(2) have "x = d" by simp
    then show ?thesis by simp
  next
    case False
    with Cons.prems(2) have "d \<in> set xs" by auto
    with Cons.IH Cons.prems(1) False show ?thesis by simp
  qed
qed

lemma statusOf_member:
  assumes "distinct (map id_r (dumpReports s))" "d \<in> set (dumpReports s)"
  shows "statusOf s (id_r d) = Some (status d)"
  by (simp add: statusOf_def dumpReport_findUnique_def find_by_id[OF assms])

lemma statusOf_None:
  assumes "r \<notin> id_r ` set (dumpReports s)"
  shows "statusOf s r = None"
  using assms by (auto simp: statusOf_def dumpReport_findUnique_def find_None_iff)

lemma statusOf_Some_iff:
  assumes "distinct (map id_r (dumpReports s))"
  shows "statusOf s r = Some st \<longleftrightarrow> (\<exists>d \<in> set (dumpReports s). id_r d = r \<and> status d = st)"
proof
  assume a: "statusOf s r = Some st"
  then obtain d where "find (\<lambda>d. id_r d = r) (dumpReports s) = Some d" "status d = st"
    by (auto simp: statusOf_def dumpReport_findUnique_def)
  then have "d \<in> set (dumpReports s) \<and> id_r d = r \<and> status d = st"
    by (auto simp: find_Some_iff)
  then show "\<exists>d \<in> set (dumpReports s). id_r d = r \<and> status d = st" by blast
next
  assume "\<exists>d \<in> set (dumpReports s). id_r d = r \<and> status d = st"
  then obtain d where "d \<in> set (dumpReports s)" "id_r d = r" "status d = st" by blast
  then show "statusOf s r = Some st"
    using statusOf_member[OF assms, of d] by simp
qed

text \<open>A transaction that commits keeps the invariant, and only appends to the tables.\<close>

lemma reportDumpTx_effect:
  assumes tx: "reportDumpTx env req sz h s = Inr (r, s')" and inv: "storeInv env {} s"
  shows "storeInv env {} s'"
    and "\<exists>xs. dumpVerifications s' = dumpVerifications s @ (length (dumpReports s), req_userId req) # xs"
    and "\<exists>ys. awardLog s' = awardLog s @ ys
            \<and> (\<forall>a \<in> set ys. statusOf s (fst a) \<noteq> Some VERIFIED)
            \<and> reputationScores s' = foldl (awardTo env) (reputationScores s) (map snd ys)"
    and "length (dumpReports s') = Suc (length (dumpReports s))"
    and "photoHashes s' = photoHashes s @ [(h, req_userId req)]"
    and "id_r r = length (dumpReports s)"
proof -
  let ?u = "req_userId req"
  let ?R = "length (dumpReports s)"
  note I = storeInvD[OF inv]
  from tx obtain s3 cl where
    r: "r = \<lparr>id_r = ?R, reporterId = ?u,
          latitude = req_latitude req, longitude = req_longitude req,
          photoUrl = req_photoBase64 req, photoHash = h, size_r = sz,
          description = req_description req, status = UNVERIFIED\<rparr>"
    and s3: "s3 = s\<lparr>photoHashes := photoHashes s @ [(h, ?u)],
             dumpReports := dumpReports s @ [r],
             dumpVerifications := dumpVerifications s @ [(?R, ?u)]\<rparr>"
    and cl: "cl = filterClustered env req (findNearbyReports s3 ?R ?u)"
    and shape: "(cl = [] \<and> s' = s3)
     \<or> (cl \<noteq> [] \<and>
         (\<exists>s4 s5. verifyClustered env ?u cl s3 = Inr s4
            \<and> linkCreators env ?R cl s4 = Inr s5
            \<and> ((\<not> 2 \<le> dumpVerification_count s5 ?R \<and> s' = s5)
               \<or> (2 \<le> dumpVerification_count s5 ?R
                  \<and> (\<exists>s6. dumpReport_update ?R VERIFIED s5 = Inr s6
                        \<and> s' = awardVerifiers env ?R (dumpVerification_findMany s6 ?R) s6)))))"
    by (rule reportDumpTx_cases)
  show idr: "id_r r = ?R" by (simp add: r)
  have rr: "reporterId r = ?u" "status r = UNVERIFIED" by (simp_all add: r)
  have inv3: "storeInv env {} s3"
    unfolding s3 by (rule start_storeInv[OF inv idr rr])
  note I3 = storeInvD[OF inv3]
  have r3: "r \<in> set (dumpReports s3)" by (simp add: s3)
  have fresh: "statusOf s ?R = None"
  proof (rule statusOf_None)
    show "?R \<notin> id_r ` set (dumpReports s)"
      using ids_bound[OF I(1)] by fastforce
  qed
  note P = clustered_props[OF I3(1) cl]
  show "storeInv env {} s'"
    and "\<exists>xs. dumpVerifications s' = dumpVerifications s @ (?R, ?u) # xs"
    and "\<exists>ys. awardLog s' = awardLog s @ ys
            \<and> (\<forall>a \<in> set ys. statusOf s (fst a) \<noteq> Some VERIFIED)
            \<and> reputationScores s' = foldl (awardTo env) (reputationScores s) (map snd ys)"
    and "length (dumpReports s') = Suc (length (dumpReports s))"
    and "photoHashes s' = photoHashes s @ [(h, ?u)]"
  proof -
    have "storeInv env {} s'
      \<and> (\<exists>xs. dumpVerifications s' = dumpVerifications s @ (?R, ?u) # xs)
      \<and> (\<exists>ys. awardLog s' = awardLog s @ ys
            \<and> (\<forall>a \<in> set ys. statusOf s (fst a) \<noteq> Some VERIFIED)
            \<and> reputationScores s' = foldl (awardTo env) (reputationScores s) (map snd ys))
      \<and> length (dumpReports s') = Suc (length (dumpReports s))
      \<and> photoHashes s' = photoHashes s @ [(h, ?u)]"
    proof (cases "cl = []")
      case True
      with shape have "s' = s3" by simp
      moreover have "awardLog s3 = awardLog s @ []
            \<and> (\<forall>a \<in> set []. statusOf s (fst a) \<noteq> Some VERIFIED)
            \<and> reputationScores s3 = foldl (awardTo env) (reputationScores s) (map snd [])"
        by (simp add: s3)
      ultimately show ?thesis using inv3 by (auto simp: s3)
    next
      case False
      with shape obtain s4 s5 where
        l1: "verifyClustered env ?u cl s3 = Inr s4"
        and l2: "linkCreators env ?R cl s4 = Inr s5"
        and fin: "(\<not> 2 \<le> dumpVerification_count s5 ?R \<and> s' = s5)
               \<or> (2 \<le> dumpVerification_count s5 ?R
                  \<and> (\<exists>s6. dumpReport_update ?R VERIFIED s5 = Inr s6
                        \<and> s' = awardVerifiers env ?R (dumpVerification_findMany s6 ?R) s6))"
        by blast
      have inv4: "storeInv env {} s4"
        by (rule verifyClustered_storeInv[OF l1 inv3 _ P(2)]) (use P(1) in simp)
      note I4 = storeInvD[OF inv4]
      have r4: "r \<in> set (dumpReports s4)"
        by (rule verifyClustered_keeps_report[OF l1 r3]) (use P(1) idr in auto)
      have R4: "?R < length (dumpReports s4)"
        using ids_bound[OF I4(1) r4] idr by simp
      have inv5: "storeInv env {?R} s5"
        by (rule linkCreators_storeInv[OF l2 inv4 R4])
      have s5: "s5 = s4\<lparr>dumpVerifications := dumpVerifications s4 @ map (\<lambda>n. (?R, reporterId (fst n))) cl\<rparr>"
        by (rule linkCreators_Inr[OF l2])
      have r5: "r \<in> set (dumpReports s5)" using r4 by (simp add: s5)
      have self4: "(?R, ?u) \<in> set (dumpVerifications s4)"
        using I4(3)[OF r4] idr rr by simp
      then have self5: "(?R, reporterId r) \<in> set (dumpVerifications s5)"
        by (simp add: s5 rr)
      obtain n where n: "n \<in> set cl" using False by (cases cl) auto
      have other: "(?R, reporterId (fst n)) \<in> set (dumpVerifications s5)"
        using n by (auto simp: s5)
      have two: "2 \<le> card (verifiersOf s5 ?R)"
      proof (rule two_le_card[of _ ?u "reporterId (fst n)"])
        show "?u \<in> verifiersOf s5 ?R" using self5 by (simp add: verifiersOf_def rr)
        show "reporterId (fst n) \<in> verifiersOf s5 ?R" using other by (simp add: verifiersOf_def)
        show "?u \<noteq> reporterId (fst n)" using P(1) n by auto
      qed simp
      then have "2 \<le> dumpVerification_count s5 ?R"
        using card_verifiersOf_le[of s5 ?R] by linarith
      with fin obtain s6 where up: "dumpReport_update ?R VERIFIED s5 = Inr s6"
        and s': "s' = awardVerifiers env ?R (dumpVerification_findMany s6 ?R) s6"
        by blast
      have s6: "s6 = s5\<lparr>dumpReports := map (\<lambda>d. if id_r d = ?R then d\<lparr>status := VERIFIED\<rparr> else d) (dumpReports s5)\<rparr>"
        by (rule dumpReport_update_Inr(1)[OF up])
      have inv': "storeInv env {} s'"
        unfolding s' by (rule promote_storeInv[OF inv5 r5 idr rr(2) self5 two up])
      from verifyClustered_log[OF l1] obtain ys where ys: "awardLog s4 = awardLog s3 @ ys"
        "\<forall>a \<in> set ys. \<exists>n \<in> set cl. fst a = id_r (fst n) \<and> status (fst n) = UNVERIFIED"
        "reputationScores s4 = foldl (awardTo env) (reputationScores s3) (map snd ys)"
        by blast
      let ?zs = "filter (\<lambda>v. fst v = ?R) (dumpVerifications s5)"
      have log': "awardLog s' = awardLog s @ (ys @ ?zs)"
        unfolding s' awardVerifiers_awardLog dumpVerification_findMany_def map_retag_filter
        by (simp add: s6 s5 ys(1) s3)
      have rep': "reputationScores s' = foldl (awardTo env) (reputationScores s) (map snd (ys @ ?zs))"
        unfolding s' awardVerifiers_reputationScores dumpVerification_findMany_def
        by (simp add: s6 s5 ys(3) s3)
      have notver: "statusOf s (fst a) \<noteq> Some VERIFIED" if "a \<in> set (ys @ ?zs)" for a
      proof (cases "a \<in> set ys")
        case True
        then obtain m where m: "m \<in> set cl" "fst a = id_r (fst m)" "status (fst m) = UNVERIFIED"
          using ys(2) by blast
        have "fst m \<in> set (dumpReports s3)" "id_r (fst m) \<noteq> ?R" using P(1) m(1) by auto
        then have "fst m \<in> set (dumpReports s)" using idr by (auto simp: s3)
        then have "statusOf s (id_r (fst m)) = Some UNVERIFIED"
          using statusOf_member[OF ids_distinct[OF I(1)]] m(3) by simp
        then show ?thesis by (simp add: m(2))
      next
        case False
        with that have "fst a = ?R" by auto
        then show ?thesis using fresh by simp
      qed
      have rows': "\<exists>xs. dumpVerifications s' = dumpVerifications s @ (?R, ?u) # xs"
        unfolding s' using verifyClustered_rows[OF l1] by (simp add: s6 s5 s3)
      have len': "length (dumpReports s') = Suc (length (dumpReports s))"
      proof -
        have "length (dumpReports s4) = length (dumpReports s3)"
          by (rule verifyClustered_length[OF l1])
        then show ?thesis unfolding s' by (simp add: s6 s5 s3)
      qed
      have ph': "photoHashes s' = photoHashes s @ [(h, ?u)]"
        unfolding s' using verifyClustered_photoHashes[OF l1] by (simp add: s6 s5 s3)
      show ?thesis
        using inv' rows' log' rep' notver len' ph' by blast
    qed
    then show "storeInv env {} s'"
      and "\<exists>xs. dumpVerifications s' = dumpVerifications s @ (?R, ?u) # xs"
      and "\<exists>ys. awardLog s' = awardLog s @ ys
            \<and> (\<forall>a \<in> set ys. statusOf s (fst a) \<noteq> Some VERIFIED)
            \<and> reputationScores s' = foldl (awardTo env) (reputationScores s) (map snd ys)"
      and "length (dumpReports s') = Suc (length (dumpReports s))"
      and "photoHashes s' = photoHashes s @ [(h, ?u)]"
      by blast+
  qed
qed


subsection \<open>The handler and the reachable stores\<close>

lemma reportDump_cases:
  obtains (rejected) e where "reportDump env s req = (Inl e, s)"
  | (accepted) r s' where
      "reportDumpSchema_ok req" "isValidBase64Image (req_photoBase64 req)"
      "photoHash_findUnique s (generatePhotoHash (sha256 env) (req_photoBase64 req)) = None"
      "reportDumpTx env req (the (parseSize (req_size req)))
         (generatePhotoHash (sha256 env) (req_photoBase64 req)) s = Inr (r, s')"
      "reportDump env s req = (Inr (respond s' (id_r r)), s')"
proof -
  let ?h = "generatePhotoHash (sha256 env) (req_photoBase64 req)"
  show ?thesis
  proof (cases "reportDumpSchema_ok req \<and> isValidBase64Image (req_photoBase64 req)
                 \<and> photoHash_findUnique s ?h = None")
    case False
    then have "\<exists>e. reportDump env s req = (Inl e, s)"
      by (auto simp: reportDump_def Let_def split: option.splits)
    then show ?thesis using rejected by blast
  next
    case True
    show ?thesis
    proof (cases "reportDumpTx env req (the (parseSize (req_size req))) ?h s")
      case (Inl e)
      with True have "reportDump env s req = (Inl FailedToSubmitReport, s)"
        by (simp add: reportDump_def Let_def)
      then show ?thesis by (rule rejected)
    next
      case (Inr p)
      obtain r s' where p: "p = (r, s')" by (cases p)
      show ?thesis
      proof (rule accepted[of r s'])
        show "reportDumpSchema_ok req" "isValidBase64Image (req_photoBase64 req)"
          "photoHash_findUnique s ?h = None"
          using True by simp_all
        show "reportDumpTx env req (the (parseSize (req_size req))) ?h s = Inr (r, s')"
          using Inr p by simp
        show "reportDump env s req = (Inr (respond s' (id_r r)), s')"
          using True Inr p by (simp add: reportDump_def Let_def)
      qed
    qed
  qed
qed

lemma submit_effect:
  assumes inv: "storeInv env {} s"
  shows "storeInv env {} (submit env s req)"
    and "\<exists>xs. dumpVerifications (submit env s req) = dumpVerifications s @ xs"
    and "\<exists>ys. awardLog (submit env s req) = awardLog s @ ys
            \<and> (\<forall>a \<in> set ys. statusOf s (fst a) \<noteq> Some VERIFIED)
            \<and> reputationScores (submit env s req)
                = foldl (awardTo env) (reputationScores s) (map snd ys)"
    and "length (dumpReports s) \<le> length (dumpReports (submit env s req))"
proof -
  have "storeInv env {} (submit env s req)
    \<and> (\<exists>xs. dumpVerifications (submit env s req) = dumpVerifications s @ xs)
    \<and> (\<exists>ys. awardLog (submit env s req) = awardLog s @ ys
            \<and> (\<forall>a \<in> set ys. statusOf s (fst a) \<noteq> Some VERIFIED)
            \<and> reputationScores (submit env s req)
                = foldl (awardTo env) (reputationScores s) (map snd ys))
    \<and> length (dumpReports s) \<le> length (dumpReports (submit env s req))"
  proof (cases rule: reportDump_cases[of env s req])
    case (rejected e)
    then have same: "submit env s req = s" by (simp add: submit_def)
    have "awardLog s = awardLog s @ []
            \<and> (\<forall>a \<in> set []. statusOf s (fst a) \<noteq> Some VERIFIED)
            \<and> reputationScores s = foldl (awardTo env) (reputationScores s) (map snd [])"
      by simp
    then show ?thesis unfolding same using inv by blast
  next
    case (accepted r s')
    then have to: "submit env s req = s'" by (simp add: submit_def)
    note E = reportDumpTx_effect[OF accepted(4) inv]
    show ?thesis unfolding to using E(1,2,3,4) by auto
  qed
  then show "storeInv env {} (submit env s req)"
    and "\<exists>xs. dumpVerifications (submit env s req) = dumpVerifications s @ xs"
    and "\<exists>ys. awardLog (submit env s req) = awardLog s @ ys
            \<and> (\<forall>a \<in> set ys. statusOf s (fst a) \<noteq> Some VERIFIED)
            \<and> reputationScores (submit env s req)
                = foldl (awardTo env) (reputationScores s) (map snd ys)"
    and "length (dumpReports s) \<le> length (dumpReports (submit env s req))"
    by blast+
qed

lemma reachable_storeInv:
  assumes "reachable env m s"
  shows "storeInv env {} s"
  using assms
proof (induction rule: reachable.induct)
  case (reachable_init)
  show ?case by (rule initialStore_inv)
next
  case (reachable_step s req)
  then show ?case by (simp add: submit_effect(1))
qed

lemma reachable_reputation:
  assumes "reachable env m s"
  shows "reputationScores s = foldl (awardTo env) m (map snd (awardLog s))"
  using assms
proof (induction rule: reachable.induct)
  case (reachable_init)
  show ?case by (simp add: initialStore_def)
next
  case (reachable_step s req)
  from submit_effect(3)[OF reachable_storeInv[OF reachable_step.hyps], of req]
  obtain ys where ys: "awardLog (submit env s req) = awardLog s @ ys"
    "reputationScores (submit env s req) = foldl (awardTo env) (reputationScores s) (map snd ys)"
    by blast
  show ?case
    by (simp add: ys reachable_step.IH)
qed

lemma reachable_submitAll:
  assumes "reachable env m s"
  shows "reachable env m (submitAll env s reqs)"
  using assms
proof (induction reqs arbitrary: s)
  case Nil
  then show ?case by simp
next
  case (Cons req reqs)
  show ?case
    using Cons.IH[OF reachable_step[OF Cons.prems, of req]] by simp
qed

lemma status_iff_threshold:
  assumes inv: "storeInv env {} s"
  shows "statusOf s r = Some VERIFIED \<longleftrightarrow> 2 \<le> card (verifiersOf s r)"
proof
  note I = storeInvD[OF inv]
  assume "statusOf s r = Some VERIFIED"
  then obtain d where d: "d \<in> set (dumpReports s)" "id_r d = r" "status d = VERIFIED"
    using statusOf_Some_iff[OF ids_distinct[OF I(1)]] by blast
  then show "2 \<le> card (verifiersOf s r)"
    using I(4)[OF d(1)] by simp
next
  note I = storeInvD[OF inv]
  assume two: "2 \<le> card (verifiersOf s r)"
  then have "verifiersOf s r \<noteq> {}" by auto
  then obtain u where "(r, u) \<in> set (dumpVerifications s)"
    by (auto simp: verifiersOf_def)
  then have lt: "r < length (dumpReports s)" using I(2)[of "(r, u)"] by simp
  let ?d = "dumpReports s ! r"
  have mem: "?d \<in> set (dumpReports s)" using lt by simp
  have "map id_r (dumpReports s) ! r = [0..<length (dumpReports s)] ! r"
    by (simp only: I(1))
  then have idd: "id_r ?d = r" using lt by simp
  have "status ?d = VERIFIED" using I(4)[OF mem] two idd by simp
  then show "statusOf s r = Some VERIFIED"
    using statusOf_Some_iff[OF ids_distinct[OF I(1)], of r VERIFIED] mem idd by blast
qed

lemma verifiersOf_mono:
  assumes "dumpVerifications s' = dumpVerifications s @ xs"
  shows "card (verifiersOf s r) \<le> card (verifiersOf s' r)"
proof (rule card_mono)
  show "finite (verifiersOf s' r)" by simp
  show "verifiersOf s r \<subseteq> verifiersOf s' r"
    using assms by (auto simp: verifiersOf_def)
qed

lemma submit_keeps_verified:
  assumes inv: "storeInv env {} s" and v: "statusOf s r = Some VERIFIED"
  shows "statusOf (submit env s req) r = Some VERIFIED"
proof -
  from submit_effect(2)[OF inv, of req] obtain xs where
    xs: "dumpVerifications (submit env s req) = dumpVerifications s @ xs" by blast
  have "2 \<le> card (verifiersOf s r)"
    using status_iff_threshold[OF inv] v by simp
  then have "2 \<le> card (verifiersOf (submit env s req) r)"
    using verifiersOf_mono[OF xs, of r] by linarith
  then show ?thesis
    using status_iff_threshold[OF submit_effect(1)[OF inv]] by simp
qed

lemma submit_awards_only_on_flip:
  assumes inv: "storeInv env {} s"
    and ch: "awardsFor (submit env s req) r \<noteq> awardsFor s r"
  shows "statusOf s r \<noteq> Some VERIFIED \<and> statusOf (submit env s req) r = Some VERIFIED"
proof -
  from submit_effect(3)[OF inv, of req] obtain ys where
    ys: "awardLog (submit env s req) = awardLog s @ ys"
      "\<forall>a \<in> set ys. statusOf s (fst a) \<noteq> Some VERIFIED"
    by blast
  from ch have "filter (\<lambda>a. fst a = r) ys \<noteq> []"
    by (simp add: awardsFor_def ys(1))
  then obtain a where a: "a \<in> set ys" "fst a = r"
    by (auto simp: filter_empty_conv)
  have before: "statusOf s r \<noteq> Some VERIFIED" using ys(2) a by blast
  note I' = storeInvD[OF submit_effect(1)[OF inv, of req]]
  have "a \<in> set (awardLog (submit env s req))" using a(1) by (simp add: ys(1))
  from I'(5)[OF this] obtain d where "d \<in> set (dumpReports (submit env s req))"
    "id_r d = r" "status d = VERIFIED"
    using a(2) by auto
  then have "statusOf (submit env s req) r = Some VERIFIED"
    using statusOf_Some_iff[OF ids_distinct[OF I'(1)], of r VERIFIED] by blast
  with before show ?thesis by simp
qed

lemma submitAll_awards_frozen:
  assumes "reachable env m s" "statusOf s r = Some VERIFIED"
  shows "awardsFor (submitAll env s reqs) r = awardsFor s r"
  using assms
proof (induction reqs arbitrary: s)
  case Nil
  then show ?case by simp
next
  case (Cons req reqs)
  note inv = reachable_storeInv[OF Cons.prems(1)]
  have same: "awardsFor (submit env s req) r = awardsFor s r"
    using submit_awards_only_on_flip[OF inv, of req r] Cons.prems(2) by blast
  have "awardsFor (submitAll env (submit env s req) reqs) r = awardsFor (submit env s req) r"
    by (rule Cons.IH[OF reachable_step[OF Cons.prems(1)] submit_keeps_verified[OF inv Cons.prems(2)]])
  then show ?case using same by simp
qed

lemma distinct_count_list_le:
  assumes "distinct xs"
  shows "count_list xs x \<le> 1"
  using assms
proof (induction xs)
  case Nil
  then show ?case by simp
next
  case (Cons y ys)
  show ?case
  proof (cases "x = y")
    case True
    then have "x \<notin> set ys" using Cons.prems by simp
    then have "count_list ys x = 0" by (simp add: count_list_0_iff)
    then show ?thesis using True by simp
  next
    case False
    then show ?thesis using Cons by simp
  qed
qed


section \<open>Evaluating the handler\<close>

lemma plain_payload:
  assumes "s \<noteq> []" "hd s \<noteq> CHR ''d''"
  shows "matchDataUrlPrefix s = None"
proof -
  obtain c cs where s: "s = c # cs" using assms(1) by (cases s) auto
  then have "c \<noteq> CHR ''d''" using assms(2) by simp
  then have "take 11 s \<noteq> ''data:image/''" by (simp add: s)
  then show ?thesis by (simp add: matchDataUrlPrefix_def)
qed

lemma replicate_payload [simp]:
  assumes "c \<noteq> CHR ''d''"
  shows "matchDataUrlPrefix (replicate 100 c) = None"
  by (rule plain_payload) (use assms in simp_all)

text \<open>The first report in an empty store.\<close>

lemma first_submission:
  assumes ok: "reportDumpSchema_ok req" "isValidBase64Image (req_photoBase64 req)"
  shows "reportDump env (initialStore m) req =
           (Inr \<lparr>report = Some (reportOf env req 0 UNVERIFIED), verificationCount = 1,
                  isVerified = False\<rparr>,
            \<lparr>photoHashes = [(generatePhotoHash (sha256 env) (req_photoBase64 req), req_userId req)],
              dumpReports = [reportOf env req 0 UNVERIFIED],
              dumpVerifications = [(0, req_userId req)],
              reputationScores = m, awardLog = []\<rparr>)"
  using ok
  by (simp add: reportDump_def respond_def reportDumpTx_def initialStore_def photoHash_findUnique_def
      photoHash_create_def dumpReport_create_def dumpVerification_create_def
      findNearbyReports_def filterClustered_def dumpReport_findUnique_def
      dumpVerification_count_def dumpVerification_findMany_def reportOf_def Let_def)

text \<open>A second report, by another user with another photo, within the radius of the first.\<close>

lemma second_submission:
  assumes ok: "reportDumpSchema_ok rb" "isValidBase64Image (req_photoBase64 rb)"
    and user: "req_userId rb \<noteq> req_userId ra"
    and photo: "generatePhotoHash (sha256 env) (req_photoBase64 rb)
                  \<noteq> generatePhotoHash (sha256 env) (req_photoBase64 ra)"
    and near: "isWithinRadius (req_latitude rb) (req_longitude rb) (req_latitude ra)
                 (req_longitude ra) (GEO_CLUSTER_RADIUS env)"
  shows "reportDump env
           \<lparr>photoHashes = [(generatePhotoHash (sha256 env) (req_photoBase64 ra), req_userId ra)],
             dumpReports = [reportOf env ra 0 UNVERIFIED],
             dumpVerifications = [(0, req_userId ra)],
             reputationScores = m, awardLog = []\<rparr> rb =
           (Inr \<lparr>report = Some (reportOf env rb 1 VERIFIED), verificationCount = 2,
                  isVerified = True\<rparr>,
            \<lparr>photoHashes = [(generatePhotoHash (sha256 env) (req_photoBase64 ra), req_userId ra),
                             (generatePhotoHash (sha256 env) (req_photoBase64 rb), req_userId rb)],
              dumpReports = [reportOf env ra 0 VERIFIED, reportOf env rb 1 VERIFIED],
              dumpVerifications = [(0, req_userId ra), (1, req_userId rb), (0, req_userId rb),
                                   (1, req_userId ra)],
              reputationScores =
                foldl (awardTo env) m [req_userId ra, req_userId rb, req_userId rb, req_userId ra],
              awardLog = [(0, req_userId ra), (0, req_userId rb), (1, req_userId rb),
                          (1, req_userId ra)]\<rparr>)"
  using ok user photo near
  by (simp add: reportDump_def respond_def reportDumpTx_def photoHash_findUnique_def
      photoHash_create_def dumpReport_create_def dumpVerification_create_def
      findNearbyReports_def filterClustered_def dumpReport_findUnique_def
      dumpVerification_count_def dumpVerification_findMany_def reportOf_def Let_def
      verifyOne_def dumpReport_update_def reputationScore_upsert_def awardTo_eq)



subsection \<open>The example requests\<close>

lemma within_close [simp]:
  assumes "\<bar>lat1\<bar> \<le> 90" "\<bar>lat2\<bar> \<le> 90"
    and "\<bar>lat2 - lat1\<bar> \<le> 1 / 10000" "\<bar>lon2 - lon1\<bar> \<le> 1 / 10000"
  shows "isWithinRadius lat1 lon1 lat2 lon2 100"
  unfolding isWithinRadius_def by (rule calculateDistance_close[OF assms])

lemma replicate_not_dataurl [simp]:
  assumes "c \<noteq> CHR ''d''"
  shows "take 11 (replicate 100 c) \<noteq> ''data:image/''"
proof
  assume "take 11 (replicate 100 c) = ''data:image/''"
  then have "hd (take 11 (replicate 100 c)) = CHR ''d''" by simp
  then show False using assms by simp
qed

lemma example_requests_ok [simp]:
  "reportDumpSchema_ok reqA" "isValidBase64Image (req_photoBase64 reqA)"
  "reportDumpSchema_ok reqB" "isValidBase64Image (req_photoBase64 reqB)"
  "reportDumpSchema_ok reqC" "isValidBase64Image (req_photoBase64 reqC)"
  "reportDumpSchema_ok reqB1" "isValidBase64Image (req_photoBase64 reqB1)"
  "reportDumpSchema_ok reqB2" "isValidBase64Image (req_photoBase64 reqB2)"
  "reportDumpSchema_ok reqA3" "isValidBase64Image (req_photoBase64 reqA3)"
  using replicate_not_dataurl[of "CHR ''A''"] replicate_not_dataurl[of "CHR ''B''"]
    replicate_not_dataurl[of "CHR ''C''"] replicate_not_dataurl[of "CHR ''P''"]
    replicate_not_dataurl[of "CHR ''Q''"] replicate_not_dataurl[of "CHR ''R''"]
  by (simp_all add: reportDumpSchema_ok_def isValidBase64Image_def parseSize_def mkRequest_def
      reqA_def reqB_def reqC_def reqB1_def reqB2_def reqA3_def del: take_replicate)

lemma plain_hash [simp]:
  assumes "c \<noteq> CHR ''d''"
  shows "generatePhotoHash sha (replicate 100 c) = sha (replicate 100 c)"
  using assms by (simp add: generatePhotoHash_def stripDataUrlPrefix_def)

lemma exampleEnv_fields [simp]:
  "GEO_CLUSTER_RADIUS (exampleEnv uq) = 100"
  "REPUTATION_PER_VERIFIED (exampleEnv uq) = 10"
  "sha256 (exampleEnv uq) = (\<lambda>x. x)"
  "verificationUnique (exampleEnv uq) = uq"
  by (simp_all add: exampleEnv_def)

text \<open>The store after A's and B's reports of the scenario.\<close>

lemma scenario_first:
  "reportDump (exampleEnv uq) emptyStore reqA =
     (Inr \<lparr>report = Some (reportOf (exampleEnv uq) reqA 0 UNVERIFIED), verificationCount = 1,
            isVerified = False\<rparr>,
      \<lparr>photoHashes = [(replicate 100 (CHR ''A''), ''A'')],
        dumpReports = [reportOf (exampleEnv uq) reqA 0 UNVERIFIED],
        dumpVerifications = [(0, ''A'')],
        reputationScores = noScores, awardLog = []\<rparr>)"
  using first_submission[of reqA "exampleEnv uq" noScores]
  by (simp add: emptyStore_def) (simp add: reqA_def mkRequest_def)

lemma scenario_second:
  "reportDump (exampleEnv uq)
     \<lparr>photoHashes = [(replicate 100 (CHR ''A''), ''A'')],
       dumpReports = [reportOf (exampleEnv uq) reqA 0 UNVERIFIED],
       dumpVerifications = [(0, ''A'')],
       reputationScores = noScores, awardLog = []\<rparr> reqB =
     (Inr \<lparr>report = Some (reportOf (exampleEnv uq) reqB 1 VERIFIED), verificationCount = 2,
            isVerified = True\<rparr>,
      \<lparr>photoHashes = [(replicate 100 (CHR ''A''), ''A''), (replicate 100 (CHR ''B''), ''B'')],
        dumpReports = [reportOf (exampleEnv uq) reqA 0 VERIFIED,
                       reportOf (exampleEnv uq) reqB 1 VERIFIED],
        dumpVerifications = [(0, ''A''), (1, ''B''), (0, ''B''), (1, ''A'')],
        reputationScores = foldl (awardTo (exampleEnv uq)) noScores [''A'', ''B'', ''B'', ''A''],
        awardLog = [(0, ''A''), (0, ''B''), (1, ''B''), (1, ''A'')]\<rparr>)"
proof -
  have near: "isWithinRadius (req_latitude reqB) (req_longitude reqB) (req_latitude reqA)
                 (req_longitude reqA) (GEO_CLUSTER_RADIUS (exampleEnv uq))"
    by (simp add: reqA_def reqB_def mkRequest_def)
  have user: "req_userId reqB \<noteq> req_userId reqA"
    by (simp add: reqA_def reqB_def mkRequest_def)
  have photo: "generatePhotoHash (sha256 (exampleEnv uq)) (req_photoBase64 reqB)
                  \<noteq> generatePhotoHash (sha256 (exampleEnv uq)) (req_photoBase64 reqA)"
    by (simp add: reqA_def reqB_def mkRequest_def)
  have ua: "req_userId reqA = ''A''" "req_photoBase64 reqA = replicate 100 (CHR ''A'')"
    and ub: "req_userId reqB = ''B''" "req_photoBase64 reqB = replicate 100 (CHR ''B'')"
    by (simp_all add: reqA_def reqB_def mkRequest_def)
  show ?thesis
    using second_submission[OF example_requests_ok(3,4) user photo near, of noScores]
    by (simp add: ua ub)
qed




lemmas handler_defs =
  reportDump_def respond_def reportDumpTx_def photoHash_findUnique_def photoHash_create_def
  dumpReport_create_def dumpVerification_create_def findNearbyReports_def filterClustered_def
  dumpReport_findUnique_def dumpVerification_count_def dumpVerification_findMany_def
  reportOf_def Let_def verifyOne_def dumpReport_update_def reputationScore_upsert_def awardTo_eq

lemmas request_defs =
  reqA_def reqB_def reqC_def reqB1_def reqB2_def reqA3_def mkRequest_def

lemma scenario_store:
  "submitAll (exampleEnv uq) emptyStore [reqA, reqB] =
      \<lparr>photoHashes = [(replicate 100 (CHR ''A''), ''A''), (replicate 100 (CHR ''B''), ''B'')],
        dumpReports = [reportOf (exampleEnv uq) reqA 0 VERIFIED,
                       reportOf (exampleEnv uq) reqB 1 VERIFIED],
        dumpVerifications = [(0, ''A''), (1, ''B''), (0, ''B''), (1, ''A'')],
        reputationScores = foldl (awardTo (exampleEnv uq)) noScores [''A'', ''B'', ''B'', ''A''],
        awardLog = [(0, ''A''), (0, ''B''), (1, ''B''), (1, ''A'')]\<rparr>"
  by (simp add: submit_def scenario_first scenario_second)

text \<open>A third user C reports at B's point once both reports are verified.\<close>

lemma scenario_third:
  "reportDump (exampleEnv uq) (submitAll (exampleEnv uq) emptyStore [reqA, reqB]) reqC =
     (Inr \<lparr>report = Some (reportOf (exampleEnv uq) reqC 2 VERIFIED), verificationCount = 3,
            isVerified = True\<rparr>,
      \<lparr>photoHashes = [(replicate 100 (CHR ''A''), ''A''), (replicate 100 (CHR ''B''), ''B''),
                       (replicate 100 (CHR ''C''), ''C'')],
        dumpReports = [reportOf (exampleEnv uq) reqA 0 VERIFIED,
                       reportOf (exampleEnv uq) reqB 1 VERIFIED,
                       reportOf (exampleEnv uq) reqC 2 VERIFIED],
        dumpVerifications = [(0, ''A''), (1, ''B''), (0, ''B''), (1, ''A''), (2, ''C''),
                             (0, ''C''), (1, ''C''), (2, ''A''), (2, ''B'')],
        reputationScores = foldl (awardTo (exampleEnv uq)) noScores
                             [''A'', ''B'', ''B'', ''A'', ''C'', ''A'', ''B''],
        awardLog = [(0, ''A''), (0, ''B''), (1, ''B''), (1, ''A''), (2, ''C''), (2, ''A''),
                    (2, ''B'')]\<rparr>)"
  unfolding scenario_store
  using example_requests_ok(5,6)
  by (simp add: handler_defs) (simp add: request_defs handler_defs)

text \<open>User B reports twice at one place.\<close>

lemma twice_store:
  "submitAll (exampleEnv uq) emptyStore [reqB1, reqB2] =
      \<lparr>photoHashes = [(replicate 100 (CHR ''P''), ''B''), (replicate 100 (CHR ''Q''), ''B'')],
        dumpReports = [reportOf (exampleEnv uq) reqB1 0 UNVERIFIED,
                       reportOf (exampleEnv uq) reqB2 1 UNVERIFIED],
        dumpVerifications = [(0, ''B''), (1, ''B'')],
        reputationScores = noScores,
        awardLog = []\<rparr>"
proof -
  have one: "submit (exampleEnv uq) emptyStore reqB1 =
      \<lparr>photoHashes = [(replicate 100 (CHR ''P''), ''B'')],
        dumpReports = [reportOf (exampleEnv uq) reqB1 0 UNVERIFIED],
        dumpVerifications = [(0, ''B'')],
        reputationScores = noScores, awardLog = []\<rparr>"
    using first_submission[of reqB1 "exampleEnv uq" noScores]
    by (simp add: emptyStore_def submit_def) (simp add: request_defs)
  show ?thesis
    unfolding submitAll.simps one
    using example_requests_ok(9,10)
    by (simp add: submit_def handler_defs) (simp add: request_defs handler_defs)
qed

text \<open>User A then reports at the same place, in a store without the uniqueness constraint.\<close>

lemma third_after_twice:
  "reportDump (exampleEnv False) (submitAll (exampleEnv False) emptyStore [reqB1, reqB2]) reqA3
     = (Inr \<lparr>report = Some (reportOf (exampleEnv False) reqA3 2 VERIFIED), verificationCount = 3,
            isVerified = True\<rparr>,
        \<lparr>photoHashes = [(replicate 100 (CHR ''P''), ''B''), (replicate 100 (CHR ''Q''), ''B''),
                         (replicate 100 (CHR ''R''), ''A'')],
          dumpReports = [reportOf (exampleEnv False) reqB1 0 VERIFIED,
                         reportOf (exampleEnv False) reqB2 1 VERIFIED,
                         reportOf (exampleEnv False) reqA3 2 VERIFIED],
          dumpVerifications = [(0, ''B''), (1, ''B''), (2, ''A''), (0, ''A''), (1, ''A''),
                               (2, ''B''), (2, ''B'')],
          reputationScores = foldl (awardTo (exampleEnv False)) noScores
                               [''B'', ''A'', ''B'', ''A'', ''A'', ''B'', ''B''],
          awardLog = [(0, ''B''), (0, ''A''), (1, ''B''), (1, ''A''), (2, ''A''), (2, ''B''),
                      (2, ''B'')]\<rparr>)"
  unfolding twice_store
  using example_requests_ok(11,12)
  by (simp add: handler_defs) (simp add: request_defs handler_defs)

text \<open>With the constraint the same request fails and leaves the store as it was.\<close>

lemma third_after_twice_unique:
  "reportDump (exampleEnv True) (submitAll (exampleEnv True) emptyStore [reqB1, reqB2]) reqA3
     = (Inl FailedToSubmitReport, submitAll (exampleEnv True) emptyStore [reqB1, reqB2])"
  unfolding twice_store
  using example_requests_ok(11,12)
  by (simp add: handler_defs) (simp add: request_defs handler_defs)


section \<open>Awards, verification rows and status over all runs\<close>

lemma example_reachable:
  "reachable (exampleEnv uq) noScores (submitAll (exampleEnv uq) emptyStore reqs)"
  unfolding emptyStore_def by (rule reachable_submitAll[OF reachable_init])

lemma scenario_store3:
  "submitAll (exampleEnv uq) emptyStore [reqA, reqB, reqC] =
      \<lparr>photoHashes = [(replicate 100 (CHR ''A''), ''A''), (replicate 100 (CHR ''B''), ''B''),
                       (replicate 100 (CHR ''C''), ''C'')],
        dumpReports = [reportOf (exampleEnv uq) reqA 0 VERIFIED,
                       reportOf (exampleEnv uq) reqB 1 VERIFIED,
                       reportOf (exampleEnv uq) reqC 2 VERIFIED],
        dumpVerifications = [(0, ''A''), (1, ''B''), (0, ''B''), (1, ''A''), (2, ''C''),
                             (0, ''C''), (1, ''C''), (2, ''A''), (2, ''B'')],
        reputationScores = foldl (awardTo (exampleEnv uq)) noScores
                             [''A'', ''B'', ''B'', ''A'', ''C'', ''A'', ''B''],
        awardLog = [(0, ''A''), (0, ''B''), (1, ''B''), (1, ''A''), (2, ''C''), (2, ''A''),
                    (2, ''B'')]\<rparr>"
proof -
  have "submitAll (exampleEnv uq) emptyStore [reqA, reqB, reqC]
          = snd (reportDump (exampleEnv uq) (submitAll (exampleEnv uq) emptyStore [reqA, reqB]) reqC)"
    by (simp add: submit_def)
  then show ?thesis by (simp only: scenario_third snd_conv)
qed

text \<open>
  In every store that the submissions produce, a (report, verifier) pair occurs in the
  trace of awards no more often than among the verification rows, and the reputation
  table is the initial table with one award per entry of the trace. So a pair is rewarded
  at most once as long as its verification row is stored once.
\<close>

lemma awards_bounded_by_rows:
  assumes "reachable env m s"
  shows "count_list (awardLog s) (r, u) \<le> count_list (dumpVerifications s) (r, u)"
    and "verificationUnique env \<Longrightarrow> count_list (awardLog s) (r, u) \<le> 1"
    and "reputationScores s = foldl (awardTo env) m (map snd (awardLog s))"
proof -
  note I = storeInvD[OF reachable_storeInv[OF assms]]
  show "count_list (awardLog s) (r, u) \<le> count_list (dumpVerifications s) (r, u)"
    by (rule I(9))
  show "count_list (awardLog s) (r, u) \<le> 1" if "verificationUnique env"
    using distinct_count_list_le[OF I(8)[OF that]] .
  show "reputationScores s = foldl (awardTo env) m (map snd (awardLog s))"
    by (rule reachable_reputation[OF assms])
qed



section \<open>The two-report scenario\<close>

text \<open>
  Claim C2 as stated fails: in the two-report scenario, starting from an empty store, user
  A reports at (3.8480, 11.5021) and user B then reports at (3.8481, 11.5022). Both
  reports become \<open>VERIFIED\<close>, but A and B are each rewarded for each of the two reports, so
  each ends with a score of 20 after two awards, not with one award of 10.
\<close>

theorem scenario_one_award_counterexample:
  "\<not> (scoreOf (submitAll (exampleEnv True) emptyStore [reqA, reqB]) ''A'' = 10
       \<and> scoreOf (submitAll (exampleEnv True) emptyStore [reqA, reqB]) ''B'' = 10
       \<and> count_list (map snd (awardLog (submitAll (exampleEnv True) emptyStore [reqA, reqB]))) ''A'' = 1
       \<and> count_list (map snd (awardLog (submitAll (exampleEnv True) emptyStore [reqA, reqB]))) ''B'' = 1)
   \<and> scoreOf (submitAll (exampleEnv True) emptyStore [reqA, reqB]) ''A'' = 20
   \<and> scoreOf (submitAll (exampleEnv True) emptyStore [reqA, reqB]) ''B'' = 20
   \<and> awardLog (submitAll (exampleEnv True) emptyStore [reqA, reqB])
        = [(0, ''A''), (0, ''B''), (1, ''B''), (1, ''A'')]"
  unfolding scenario_store
  by (simp add: scoreOf_def awardTo_eq noScores_def)

text \<open>
  Claim C2, amended. In the two-report scenario, starting from an empty store, with the
  default radius of 100 m and 10 points per award: user A submits a valid report at
  (3.8480, 11.5021) and the result is \<open>UNVERIFIED\<close> with verificationCount 1; then another
  user B submits a valid report with another photo at (3.8481, 11.5022). B's result is
  \<open>VERIFIED\<close> with verificationCount 2, both reports have status \<open>VERIFIED\<close>, and each of A and
  B has received two awards of 10 points, one for each of the two reports, 20 in total.
\<close>

theorem two_report_scenario:
  assumes env: "GEO_CLUSTER_RADIUS env = 100" "REPUTATION_PER_VERIFIED env = 10"
    and pos: "req_latitude ra = 3.8480" "req_longitude ra = 11.5021"
      "req_latitude rb = 3.8481" "req_longitude rb = 11.5022"
    and oka: "reportDumpSchema_ok ra" "isValidBase64Image (req_photoBase64 ra)"
    and okb: "reportDumpSchema_ok rb" "isValidBase64Image (req_photoBase64 rb)"
    and user: "req_userId rb \<noteq> req_userId ra"
    and photo: "generatePhotoHash (sha256 env) (req_photoBase64 rb)
                  \<noteq> generatePhotoHash (sha256 env) (req_photoBase64 ra)"
  shows "fst (reportDump env emptyStore ra)
           = Inr \<lparr>report = Some (reportOf env ra 0 UNVERIFIED), verificationCount = 1,
                  isVerified = False\<rparr>
       \<and> fst (reportDump env (submit env emptyStore ra) rb)
           = Inr \<lparr>report = Some (reportOf env rb 1 VERIFIED), verificationCount = 2,
                  isVerified = True\<rparr>
       \<and> dumpReports (submitAll env emptyStore [ra, rb])
           = [reportOf env ra 0 VERIFIED, reportOf env rb 1 VERIFIED]
       \<and> awardLog (submitAll env emptyStore [ra, rb])
           = [(0, req_userId ra), (0, req_userId rb), (1, req_userId rb), (1, req_userId ra)]
       \<and> scoreOf (submitAll env emptyStore [ra, rb]) (req_userId ra) = 20
       \<and> scoreOf (submitAll env emptyStore [ra, rb]) (req_userId rb) = 20"
proof -
  have near: "isWithinRadius (req_latitude rb) (req_longitude rb) (req_latitude ra)
                 (req_longitude ra) (GEO_CLUSTER_RADIUS env)"
    by (simp add: env pos)
  note one = first_submission[OF oka, of env noScores]
  note two = second_submission[OF okb user photo near, of noScores]
  have s1: "submit env emptyStore ra =
      \<lparr>photoHashes = [(generatePhotoHash (sha256 env) (req_photoBase64 ra), req_userId ra)],
        dumpReports = [reportOf env ra 0 UNVERIFIED],
        dumpVerifications = [(0, req_userId ra)],
        reputationScores = noScores, awardLog = []\<rparr>"
    by (simp add: submit_def emptyStore_def one)
  have r1: "fst (reportDump env emptyStore ra)
           = Inr \<lparr>report = Some (reportOf env ra 0 UNVERIFIED), verificationCount = 1,
                  isVerified = False\<rparr>"
    by (simp add: emptyStore_def one)
  have r2: "fst (reportDump env (submit env emptyStore ra) rb)
           = Inr \<lparr>report = Some (reportOf env rb 1 VERIFIED), verificationCount = 2,
                  isVerified = True\<rparr>"
    by (simp add: s1 two)
  have s2: "submitAll env emptyStore [ra, rb] = snd (reportDump env (submit env emptyStore ra) rb)"
    by (simp add: submit_def)
  have reps: "dumpReports (submitAll env emptyStore [ra, rb])
           = [reportOf env ra 0 VERIFIED, reportOf env rb 1 VERIFIED]"
    unfolding s2 s1 two by simp
  have log: "awardLog (submitAll env emptyStore [ra, rb])
           = [(0, req_userId ra), (0, req_userId rb), (1, req_userId rb), (1, req_userId ra)]"
    unfolding s2 s1 two by simp
  have sc: "scoreOf (submitAll env emptyStore [ra, rb]) (req_userId ra) = 20"
    "scoreOf (submitAll env emptyStore [ra, rb]) (req_userId rb) = 20"
    unfolding s2 s1 two using user by (simp_all add: scoreOf_def awardTo_eq noScores_def env)
  show ?thesis using r1 r2 reps log sc by blast
qed

theorem two_report_scenario_witness:
  "(GEO_CLUSTER_RADIUS (exampleEnv True) = 100 \<and> REPUTATION_PER_VERIFIED (exampleEnv True) = 10
    \<and> req_latitude reqA = 3.8480 \<and> req_longitude reqA = 11.5021
    \<and> req_latitude reqB = 3.8481 \<and> req_longitude reqB = 11.5022
    \<and> reportDumpSchema_ok reqA \<and> isValidBase64Image (req_photoBase64 reqA)
    \<and> reportDumpSchema_ok reqB \<and> isValidBase64Image (req_photoBase64 reqB)
    \<and> req_userId reqB \<noteq> req_userId reqA
    \<and> generatePhotoHash (sha256 (exampleEnv True)) (req_photoBase64 reqB)
         \<noteq> generatePhotoHash (sha256 (exampleEnv True)) (req_photoBase64 reqA))
   \<and> fst (reportDump (exampleEnv True) emptyStore reqA)
        = Inr \<lparr>report = Some (reportOf (exampleEnv True) reqA 0 UNVERIFIED), verificationCount = 1,
               isVerified = False\<rparr>
   \<and> dumpReports (submitAll (exampleEnv True) emptyStore [reqA, reqB])
        = [reportOf (exampleEnv True) reqA 0 VERIFIED, reportOf (exampleEnv True) reqB 1 VERIFIED]
   \<and> scoreOf (submitAll (exampleEnv True) emptyStore [reqA, reqB]) (req_userId reqA) = 20
   \<and> scoreOf (submitAll (exampleEnv True) emptyStore [reqA, reqB]) (req_userId reqB) = 20"
proof -
  have env: "GEO_CLUSTER_RADIUS (exampleEnv True) = 100" "REPUTATION_PER_VERIFIED (exampleEnv True) = 10"
    by simp_all
  have pos: "req_latitude reqA = 3.8480" "req_longitude reqA = 11.5021"
      "req_latitude reqB = 3.8481" "req_longitude reqB = 11.5022"
    by (simp_all add: request_defs)
  have user: "req_userId reqB \<noteq> req_userId reqA"
    by (simp add: request_defs)
  have photo: "generatePhotoHash (sha256 (exampleEnv True)) (req_photoBase64 reqB)
                 \<noteq> generatePhotoHash (sha256 (exampleEnv True)) (req_photoBase64 reqA)"
    by (simp add: request_defs)
  show ?thesis
    using two_report_scenario[OF env pos example_requests_ok(1,2,3,4) user photo]
      env pos user photo example_requests_ok(1,2,3,4)
    by blast
qed


section \<open>Two clustered reports of one author\<close>

text \<open>
  Claim C3 says that recording a verification for a pair that is already present, in
  particular the back-link from the new report to a nearby report's author, is silently
  ignored. The second loop has no such test. When user B has two reports at one place and
  user A reports there, the back-link (A's report, B) is created twice: with the
  uniqueness constraint the second creation fails, the transaction is rolled back and A's
  submission fails; without the constraint the row is stored twice, A's report counts
  three verifications for two verifiers, and B is rewarded twice for it.
\<close>

theorem backlink_duplicate_not_ignored:
  "reportDump (exampleEnv True) (submitAll (exampleEnv True) emptyStore [reqB1, reqB2]) reqA3
     = (Inl FailedToSubmitReport, submitAll (exampleEnv True) emptyStore [reqB1, reqB2])
   \<and> fst (reportDump (exampleEnv False) (submitAll (exampleEnv False) emptyStore [reqB1, reqB2]) reqA3)
     = Inr \<lparr>report = Some (reportOf (exampleEnv False) reqA3 2 VERIFIED), verificationCount = 3,
            isVerified = True\<rparr>
   \<and> dumpVerifications (submitAll (exampleEnv False) emptyStore [reqB1, reqB2, reqA3])
     = [(0, ''B''), (1, ''B''), (2, ''A''), (0, ''A''), (1, ''A''), (2, ''B''), (2, ''B'')]
   \<and> awardLog (submitAll (exampleEnv False) emptyStore [reqB1, reqB2, reqA3])
     = [(0, ''B''), (0, ''A''), (1, ''B''), (1, ''A''), (2, ''A''), (2, ''B''), (2, ''B'')]"
proof -
  note a = third_after_twice_unique
  note b = third_after_twice
  have c: "submitAll (exampleEnv False) emptyStore [reqB1, reqB2, reqA3]
     = snd (reportDump (exampleEnv False) (submitAll (exampleEnv False) emptyStore [reqB1, reqB2]) reqA3)"
    by (simp add: submit_def)
  show ?thesis
    unfolding c using a by (simp only: b) simp
qed


lemma findUnique_index:
  assumes inv: "storeInv env {} s" and lt: "r < length (dumpReports s)"
  shows "\<exists>d. dumpReport_findUnique s r = Some d \<and> id_r d = r"
proof -
  note I = storeInvD[OF inv]
  let ?d = "dumpReports s ! r"
  have mem: "?d \<in> set (dumpReports s)" using lt by simp
  have "map id_r (dumpReports s) ! r = [0..<length (dumpReports s)] ! r"
    by (simp only: I(1))
  then have idd: "id_r ?d = r" using lt by simp
  have "find (\<lambda>x. id_r x = id_r ?d) (dumpReports s) = Some ?d"
    by (rule find_by_id[OF ids_distinct[OF I(1)] mem])
  then show ?thesis by (simp add: dumpReport_findUnique_def idd)
qed

text \<open>
  Claim C4. After any sequence of submissions, where the store enforces the uniqueness
  of verification rows: the stored rows contain no duplicate (report, verifier) pair, for
  every report the row count equals the number of distinct users with a verification row
  for it, and the verification count returned for an accepted report is that number.
\<close>

theorem verification_rows_unique:
  assumes "reachable env m s" and "verificationUnique env"
  shows "distinct (dumpVerifications s)
       \<and> dumpVerification_count s r = card (verifiersOf s r)
       \<and> (reportDump env s req = (Inr resp, s') \<longrightarrow>
            (\<exists>d. report resp = Some d \<and> verificationCount resp = card (verifiersOf s' (id_r d))))"
proof -
  note inv = reachable_storeInv[OF assms(1)]
  have d: "distinct (dumpVerifications s)"
    using storeInvD(7)[OF inv assms(2)] .
  have c: "dumpVerification_count s r = card (verifiersOf s r)"
    by (rule card_verifiersOf_eq[OF d])
  have "\<exists>d. report resp = Some d \<and> verificationCount resp = card (verifiersOf s' (id_r d))"
    if ok: "reportDump env s req = (Inr resp, s')"
  proof (cases rule: reportDump_cases[of env s req])
    case (rejected e)
    with ok show ?thesis by simp
  next
    case (accepted r0 t)
    from ok accepted(5) have t: "t = s'" by simp
    from ok accepted(5) have resp: "resp = respond s' (id_r r0)"
      by auto
    note E = reportDumpTx_effect[OF accepted(4) inv]
    have inv': "storeInv env {} s'" using E(1) t by simp
    have "id_r r0 < length (dumpReports s')" using E(4,6) t by simp
    from findUnique_index[OF inv' this] obtain d0 where
      d0: "dumpReport_findUnique s' (id_r r0) = Some d0" "id_r d0 = id_r r0" by blast
    have "distinct (dumpVerifications s')"
      using storeInvD(7)[OF inv' assms(2)] .
    then have "dumpVerification_count s' (id_r r0) = card (verifiersOf s' (id_r r0))"
      by (rule card_verifiersOf_eq)
    then show ?thesis
      using d0 by (simp add: resp respond_def dumpVerification_count_def)
  qed
  then show ?thesis using d c by blast
qed

theorem verification_rows_unique_witness:
  "reachable (exampleEnv True) noScores (submitAll (exampleEnv True) emptyStore [reqA, reqB])
   \<and> verificationUnique (exampleEnv True)
   \<and> reportDump (exampleEnv True) (submitAll (exampleEnv True) emptyStore [reqA, reqB]) reqC
       = (Inr \<lparr>report = Some (reportOf (exampleEnv True) reqC 2 VERIFIED), verificationCount = 3,
               isVerified = True\<rparr>,
          submitAll (exampleEnv True) emptyStore [reqA, reqB, reqC])
   \<and> distinct (dumpVerifications (submitAll (exampleEnv True) emptyStore [reqA, reqB]))
   \<and> dumpVerification_count (submitAll (exampleEnv True) emptyStore [reqA, reqB]) 0
       = card (verifiersOf (submitAll (exampleEnv True) emptyStore [reqA, reqB]) 0)
   \<and> card (verifiersOf (submitAll (exampleEnv True) emptyStore [reqA, reqB, reqC]) 2) = 3"
proof -
  have u: "verificationUnique (exampleEnv True)" by simp
  have step: "reportDump (exampleEnv True) (submitAll (exampleEnv True) emptyStore [reqA, reqB]) reqC
       = (Inr \<lparr>report = Some (reportOf (exampleEnv True) reqC 2 VERIFIED), verificationCount = 3,
               isVerified = True\<rparr>,
          submitAll (exampleEnv True) emptyStore [reqA, reqB, reqC])"
    by (simp only: scenario_third scenario_store3)
  note T = verification_rows_unique[OF example_reachable u,
      of "[reqA, reqB]" 0 reqC
        "\<lparr>report = Some (reportOf (exampleEnv True) reqC 2 VERIFIED), verificationCount = 3,
          isVerified = True\<rparr>"
        "submitAll (exampleEnv True) emptyStore [reqA, reqB, reqC]"]
  have "card (verifiersOf (submitAll (exampleEnv True) emptyStore [reqA, reqB, reqC]) 2) = 3"
    using T step by (simp add: reportOf_def)
  then show ?thesis using T step example_reachable u by blast
qed


lemma statusOf_index:
  assumes inv: "storeInv env {} s" and lt: "r < length (dumpReports s)"
  shows "statusOf s r = Some UNVERIFIED \<or> statusOf s r = Some VERIFIED"
proof -
  from findUnique_index[OF inv lt] obtain d where "dumpReport_findUnique s r = Some d" by blast
  then show ?thesis by (cases "status d") (simp_all add: statusOf_def)
qed

text \<open>
  Claim C5. For every report, across any sequence of submissions: in every store that
  the submissions produce the report is \<open>VERIFIED\<close> exactly when it has at least two distinct
  verifiers, so its status changes from unverified to \<open>VERIFIED\<close> exactly at the step in
  which its number of distinct verifiers first reaches two; and no step changes a
  \<open>VERIFIED\<close> report back. A stored report is either \<open>UNVERIFIED\<close> or \<open>VERIFIED\<close>.
\<close>

theorem status_follows_threshold:
  assumes "reachable env m s"
  shows "(statusOf s r = Some VERIFIED \<longleftrightarrow> 2 \<le> card (verifiersOf s r))
       \<and> (statusOf s r = Some VERIFIED \<longrightarrow> statusOf (submit env s req) r = Some VERIFIED)
       \<and> ((statusOf s r \<noteq> Some VERIFIED \<and> statusOf (submit env s req) r = Some VERIFIED)
            \<longleftrightarrow> (card (verifiersOf s r) < 2 \<and> 2 \<le> card (verifiersOf (submit env s req) r)))
       \<and> (r < length (dumpReports s) \<longrightarrow>
            statusOf s r = Some UNVERIFIED \<or> statusOf s r = Some VERIFIED)"
proof -
  note inv = reachable_storeInv[OF assms]
  note inv' = submit_effect(1)[OF inv, of req]
  have a: "statusOf s r = Some VERIFIED \<longleftrightarrow> 2 \<le> card (verifiersOf s r)"
    by (rule status_iff_threshold[OF inv])
  have b: "statusOf (submit env s req) r = Some VERIFIED
             \<longleftrightarrow> 2 \<le> card (verifiersOf (submit env s req) r)"
    by (rule status_iff_threshold[OF inv'])
  have c: "statusOf s r = Some VERIFIED \<longrightarrow> statusOf (submit env s req) r = Some VERIFIED"
    using submit_keeps_verified[OF inv] by blast
  have d: "r < length (dumpReports s) \<longrightarrow>
            statusOf s r = Some UNVERIFIED \<or> statusOf s r = Some VERIFIED"
    using statusOf_index[OF inv] by blast
  show ?thesis using a b c d by (simp add: not_le)
qed

theorem status_follows_threshold_witness:
  "reachable (exampleEnv True) noScores (submitAll (exampleEnv True) emptyStore [reqA])
   \<and> statusOf (submitAll (exampleEnv True) emptyStore [reqA]) 0 = Some UNVERIFIED
   \<and> card (verifiersOf (submitAll (exampleEnv True) emptyStore [reqA]) 0) < 2
   \<and> statusOf (submit (exampleEnv True) (submitAll (exampleEnv True) emptyStore [reqA]) reqB) 0
       = Some VERIFIED
   \<and> 2 \<le> card (verifiersOf (submit (exampleEnv True) (submitAll (exampleEnv True) emptyStore [reqA]) reqB) 0)
   \<and> statusOf (submit (exampleEnv True) (submitAll (exampleEnv True) emptyStore [reqA, reqB]) reqC) 0
       = Some VERIFIED"
proof -
  have s1: "submitAll (exampleEnv True) emptyStore [reqA] =
      \<lparr>photoHashes = [(replicate 100 (CHR ''A''), ''A'')],
        dumpReports = [reportOf (exampleEnv True) reqA 0 UNVERIFIED],
        dumpVerifications = [(0, ''A'')],
        reputationScores = noScores, awardLog = []\<rparr>"
    by (simp add: submit_def scenario_first)
  have s2: "submit (exampleEnv True) (submitAll (exampleEnv True) emptyStore [reqA]) reqB
              = submitAll (exampleEnv True) emptyStore [reqA, reqB]"
    by simp
  have before: "statusOf (submitAll (exampleEnv True) emptyStore [reqA]) 0 = Some UNVERIFIED"
    unfolding s1 by (simp add: statusOf_def dumpReport_findUnique_def reportOf_def)
  have after: "statusOf (submit (exampleEnv True) (submitAll (exampleEnv True) emptyStore [reqA]) reqB) 0
       = Some VERIFIED"
    unfolding s2 scenario_store by (simp add: statusOf_def dumpReport_findUnique_def reportOf_def)
  note T1 = status_follows_threshold[OF example_reachable, of True "[reqA]" 0 reqB]
  note T2 = status_follows_threshold[OF example_reachable, of True "[reqA, reqB]" 0 reqC]
  have v2: "statusOf (submitAll (exampleEnv True) emptyStore [reqA, reqB]) 0 = Some VERIFIED"
    using after by (simp only: s2)
  have "card (verifiersOf (submitAll (exampleEnv True) emptyStore [reqA]) 0) < 2
      \<and> 2 \<le> card (verifiersOf (submit (exampleEnv True) (submitAll (exampleEnv True) emptyStore [reqA]) reqB) 0)"
    using T1 before after by simp
  moreover have "statusOf (submit (exampleEnv True) (submitAll (exampleEnv True) emptyStore [reqA, reqB]) reqC) 0
       = Some VERIFIED"
    using T2 v2 by blast
  ultimately show ?thesis using before after example_reachable by blast
qed


section \<open>Photo fingerprints\<close>

lemma findUnique_registered:
  assumes "h \<in> fst ` set (photoHashes s)"
  shows "photoHash_findUnique s h \<noteq> None"
  using assms by (auto simp: photoHash_findUnique_def find_None_iff)

lemma reportDumpTx_photoHashes:
  assumes tx: "reportDumpTx env req sz h s = Inr (r, s')"
  shows "photoHashes s' = photoHashes s @ [(h, req_userId req)]"
proof -
  let ?u = "req_userId req"
  let ?R = "length (dumpReports s)"
  from tx obtain s3 cl where
    s3: "s3 = s\<lparr>photoHashes := photoHashes s @ [(h, ?u)],
             dumpReports := dumpReports s @ [r],
             dumpVerifications := dumpVerifications s @ [(?R, ?u)]\<rparr>"
    and shape: "(cl = [] \<and> s' = s3)
     \<or> (cl \<noteq> [] \<and>
         (\<exists>s4 s5. verifyClustered env ?u cl s3 = Inr s4
            \<and> linkCreators env ?R cl s4 = Inr s5
            \<and> ((\<not> 2 \<le> dumpVerification_count s5 ?R \<and> s' = s5)
               \<or> (2 \<le> dumpVerification_count s5 ?R
                  \<and> (\<exists>s6. dumpReport_update ?R VERIFIED s5 = Inr s6
                        \<and> s' = awardVerifiers env ?R (dumpVerification_findMany s6 ?R) s6)))))"
    by (rule reportDumpTx_cases)
  show ?thesis
  proof (cases "cl = []")
    case True
    with shape show ?thesis by (simp add: s3)
  next
    case False
    with shape obtain s4 s5 where
      l1: "verifyClustered env ?u cl s3 = Inr s4"
      and l2: "linkCreators env ?R cl s4 = Inr s5"
      and fin: "(\<not> 2 \<le> dumpVerification_count s5 ?R \<and> s' = s5)
               \<or> (2 \<le> dumpVerification_count s5 ?R
                  \<and> (\<exists>s6. dumpReport_update ?R VERIFIED s5 = Inr s6
                        \<and> s' = awardVerifiers env ?R (dumpVerification_findMany s6 ?R) s6))"
      by blast
    have p5: "photoHashes s5 = photoHashes s @ [(h, ?u)]"
      using verifyClustered_photoHashes[OF l1] by (simp add: linkCreators_Inr[OF l2] s3)
    from fin show ?thesis
    proof
      assume "\<not> 2 \<le> dumpVerification_count s5 ?R \<and> s' = s5"
      then show ?thesis using p5 by simp
    next
      assume "2 \<le> dumpVerification_count s5 ?R
                  \<and> (\<exists>s6. dumpReport_update ?R VERIFIED s5 = Inr s6
                        \<and> s' = awardVerifiers env ?R (dumpVerification_findMany s6 ?R) s6)"
      then obtain s6 where up: "dumpReport_update ?R VERIFIED s5 = Inr s6"
        and s': "s' = awardVerifiers env ?R (dumpVerification_findMany s6 ?R) s6"
        by blast
      show ?thesis using p5 by (simp add: s' dumpReport_update_Inr(1)[OF up])
    qed
  qed
qed

lemma accepted_registers:
  assumes "reportDump env s req = (Inr resp, s')"
  shows "generatePhotoHash (sha256 env) (req_photoBase64 req) \<in> fst ` set (photoHashes s')"
proof (cases rule: reportDump_cases[of env s req])
  case (rejected e)
  with assms show ?thesis by simp
next
  case (accepted r t)
  from assms accepted(5) have "t = s'" by simp
  then show ?thesis
    using reportDumpTx_photoHashes[OF accepted(4)] by simp
qed

lemma submit_photoHashes_mono:
  "set (photoHashes s) \<subseteq> set (photoHashes (submit env s req))"
proof (cases rule: reportDump_cases[of env s req])
  case (rejected e)
  then show ?thesis by (simp add: submit_def)
next
  case (accepted r t)
  have "submit env s req = t" using accepted(5) by (simp add: submit_def)
  then show ?thesis
    using reportDumpTx_photoHashes[OF accepted(4)] by auto
qed

lemma submitAll_photoHashes_mono:
  "set (photoHashes s) \<subseteq> set (photoHashes (submitAll env s reqs))"
proof (induction reqs arbitrary: s)
  case Nil
  show ?case by simp
next
  case (Cons req reqs)
  show ?case
    using submit_photoHashes_mono[of s env req] Cons.IH[of "submit env s req"] by auto
qed

lemma duplicate_rejected:
  assumes "generatePhotoHash (sha256 env) (req_photoBase64 req) \<in> fst ` set (photoHashes s)"
  shows "snd (reportDump env s req) = s"
    and "\<exists>e. fst (reportDump env s req) = Inl e"
    and "reportDumpSchema_ok req \<Longrightarrow> isValidBase64Image (req_photoBase64 req) \<Longrightarrow>
           reportDump env s req = (Inl PhotoAlreadyUsed, s)"
  using findUnique_registered[OF assms]
  by (auto simp: reportDump_def Let_def split: option.splits)

text \<open>
  Claim C6. If a submission's photo payload hashes to a fingerprint already present in the
  fingerprint registry, the submission fails and the store is unchanged: no report,
  verification or fingerprint row is created and no reputation changes. The failure is
  \<open>PhotoAlreadyUsed\<close> (the spec's DuplicatePhoto) for every request that passes the validation
  that precedes the lookup.
\<close>

theorem duplicate_photo_rejected:
  assumes "generatePhotoHash (sha256 env) (req_photoBase64 req) \<in> fst ` set (photoHashes s)"
  shows "snd (reportDump env s req) = s
       \<and> (\<exists>e. fst (reportDump env s req) = Inl e)
       \<and> (reportDumpSchema_ok req \<and> isValidBase64Image (req_photoBase64 req) \<longrightarrow>
            reportDump env s req = (Inl PhotoAlreadyUsed, s))"
  using duplicate_rejected[OF assms] by blast

theorem duplicate_photo_rejected_witness:
  "generatePhotoHash (sha256 (exampleEnv True)) (req_photoBase64 (mkRequest ''B'' 3.8481 11.5022 (replicate 100 (CHR ''A''))))
     \<in> fst ` set (photoHashes (submitAll (exampleEnv True) emptyStore [reqA]))
   \<and> reportDumpSchema_ok (mkRequest ''B'' 3.8481 11.5022 (replicate 100 (CHR ''A'')))
   \<and> isValidBase64Image (req_photoBase64 (mkRequest ''B'' 3.8481 11.5022 (replicate 100 (CHR ''A''))))
   \<and> reportDump (exampleEnv True) (submitAll (exampleEnv True) emptyStore [reqA])
        (mkRequest ''B'' 3.8481 11.5022 (replicate 100 (CHR ''A'')))
       = (Inl PhotoAlreadyUsed, submitAll (exampleEnv True) emptyStore [reqA])"
proof -
  let ?req = "mkRequest ''B'' 3.8481 11.5022 (replicate 100 (CHR ''A''))"
  have s1: "submitAll (exampleEnv True) emptyStore [reqA] =
      \<lparr>photoHashes = [(replicate 100 (CHR ''A''), ''A'')],
        dumpReports = [reportOf (exampleEnv True) reqA 0 UNVERIFIED],
        dumpVerifications = [(0, ''A'')],
        reputationScores = noScores, awardLog = []\<rparr>"
    by (simp add: submit_def scenario_first)
  have h: "generatePhotoHash (sha256 (exampleEnv True)) (req_photoBase64 ?req)
     \<in> fst ` set (photoHashes (submitAll (exampleEnv True) emptyStore [reqA]))"
    unfolding s1 by (simp add: mkRequest_def)
  have v: "reportDumpSchema_ok ?req" "isValidBase64Image (req_photoBase64 ?req)"
    using example_requests_ok(1,2)
    by (simp_all add: reportDumpSchema_ok_def parseSize_def mkRequest_def reqA_def)
  show ?thesis
    using duplicate_photo_rejected[OF h] h v by blast
qed


section \<open>Late corroborators\<close>

lemma reportDumpTx_links:
  assumes tx: "reportDumpTx env req sz h s = Inr (r, s')" and inv: "storeInv env {} s"
    and d: "d \<in> set (dumpReports s)" "reporterId d \<noteq> req_userId req"
    and near: "isWithinRadius (req_latitude req) (req_longitude req) (latitude d) (longitude d)
                 (GEO_CLUSTER_RADIUS env)"
    and new: "(id_r d, req_userId req) \<notin> set (dumpVerifications s)"
  shows "(id_r d, req_userId req) \<in> set (dumpVerifications s')"
proof -
  let ?u = "req_userId req"
  let ?R = "length (dumpReports s)"
  note I = storeInvD[OF inv]
  from tx obtain s3 cl where
    s3: "s3 = s\<lparr>photoHashes := photoHashes s @ [(h, ?u)],
             dumpReports := dumpReports s @ [r],
             dumpVerifications := dumpVerifications s @ [(?R, ?u)]\<rparr>"
    and cl: "cl = filterClustered env req (findNearbyReports s3 ?R ?u)"
    and shape: "(cl = [] \<and> s' = s3)
     \<or> (cl \<noteq> [] \<and>
         (\<exists>s4 s5. verifyClustered env ?u cl s3 = Inr s4
            \<and> linkCreators env ?R cl s4 = Inr s5
            \<and> ((\<not> 2 \<le> dumpVerification_count s5 ?R \<and> s' = s5)
               \<or> (2 \<le> dumpVerification_count s5 ?R
                  \<and> (\<exists>s6. dumpReport_update ?R VERIFIED s5 = Inr s6
                        \<and> s' = awardVerifiers env ?R (dumpVerification_findMany s6 ?R) s6)))))"
    by (rule reportDumpTx_cases)
  let ?n = "(d, dumpVerification_findMany s3 (id_r d))"
  have idd: "id_r d \<noteq> ?R" using ids_bound[OF I(1) d(1)] by simp
  have st: "status d = UNVERIFIED \<or> status d = VERIFIED" by (cases "status d") simp_all
  have mem: "?n \<in> set cl"
    using d idd st near by (simp add: cl filterClustered_def findNearbyReports_def s3 image_iff)
  have fresh: "\<not> list_ex (\<lambda>v. snd v = ?u) (snd ?n)"
    using new idd by (auto simp: list_ex_iff dumpVerification_findMany_def s3)
  from mem have "cl \<noteq> []" by auto
  with shape obtain s4 s5 where
    l1: "verifyClustered env ?u cl s3 = Inr s4"
    and l2: "linkCreators env ?R cl s4 = Inr s5"
    and fin: "(\<not> 2 \<le> dumpVerification_count s5 ?R \<and> s' = s5)
               \<or> (2 \<le> dumpVerification_count s5 ?R
                  \<and> (\<exists>s6. dumpReport_update ?R VERIFIED s5 = Inr s6
                        \<and> s' = awardVerifiers env ?R (dumpVerification_findMany s6 ?R) s6))"
    by blast
  have "?n \<in> set (filter (\<lambda>n. \<not> list_ex (\<lambda>v. snd v = ?u) (snd n)) cl)"
    using mem fresh by simp
  then have "(id_r (fst ?n), ?u)
      \<in> (\<lambda>n. (id_r (fst n), ?u)) ` set (filter (\<lambda>n. \<not> list_ex (\<lambda>v. snd v = ?u) (snd n)) cl)"
    by (rule imageI)
  then have in4: "(id_r d, ?u) \<in> set (dumpVerifications s4)"
    by (simp add: verifyClustered_rows[OF l1])
  have in5: "(id_r d, ?u) \<in> set (dumpVerifications s5)"
    using in4 by (simp add: linkCreators_Inr[OF l2])
  from fin show ?thesis
  proof
    assume "\<not> 2 \<le> dumpVerification_count s5 ?R \<and> s' = s5"
    then show ?thesis using in5 by simp
  next
    assume "2 \<le> dumpVerification_count s5 ?R
                  \<and> (\<exists>s6. dumpReport_update ?R VERIFIED s5 = Inr s6
                        \<and> s' = awardVerifiers env ?R (dumpVerification_findMany s6 ?R) s6)"
    then obtain s6 where up: "dumpReport_update ?R VERIFIED s5 = Inr s6"
      and s': "s' = awardVerifiers env ?R (dumpVerification_findMany s6 ?R) s6"
      by blast
    show ?thesis
      using in5 by (simp add: s' dumpReport_update_Inr(1)[OF up])
  qed
qed

text \<open>
  Claim C9. A user who verifies a report that is already \<open>VERIFIED\<close> (a late corroborator: a
  different user whose accepted submission lies within the radius of the report, and who
  has no verification row for it yet) gets a verification row recorded for that report
  but never receives a reputation award for it, whatever submissions follow. In general
  a submission changes the awards made for a report only if the report's status becomes
  \<open>VERIFIED\<close> in that same submission.
\<close>

theorem late_corroborator_no_award:
  assumes reach: "reachable env m s"
    and d: "d \<in> set (dumpReports s)" "status d = VERIFIED" "reporterId d \<noteq> req_userId req"
    and new: "(id_r d, req_userId req) \<notin> set (dumpVerifications s)"
    and near: "isWithinRadius (req_latitude req) (req_longitude req) (latitude d) (longitude d)
                 (GEO_CLUSTER_RADIUS env)"
    and ok: "reportDump env s req = (Inr resp, s')"
  shows "(id_r d, req_userId req) \<in> set (dumpVerifications s')
       \<and> (id_r d, req_userId req) \<notin> set (awardLog (submitAll env s' reqs))
       \<and> (awardsFor (submit env s req') r \<noteq> awardsFor s r \<longrightarrow>
            statusOf s r \<noteq> Some VERIFIED \<and> statusOf (submit env s req') r = Some VERIFIED)"
proof -
  note inv = reachable_storeInv[OF reach]
  note I = storeInvD[OF inv]
  have row: "(id_r d, req_userId req) \<in> set (dumpVerifications s')"
  proof (cases rule: reportDump_cases[of env s req])
    case (rejected e)
    with ok show ?thesis by simp
  next
    case (accepted r0 t)
    from ok accepted(5) have "t = s'" by simp
    then show ?thesis
      using reportDumpTx_links[OF accepted(4) inv d(1,3) near new] by simp
  qed
  have s': "s' = submit env s req" using ok by (simp add: submit_def)
  have ver: "statusOf s (id_r d) = Some VERIFIED"
    using statusOf_member[OF ids_distinct[OF I(1)] d(1)] d(2) by simp
  have "(id_r d, req_userId req) \<notin> set (awardLog s)"
    using I(6) new by blast
  then have "(id_r d, req_userId req) \<notin> set (awardsFor s (id_r d))"
    by (simp add: awardsFor_def)
  moreover have "awardsFor (submitAll env s (req # reqs)) (id_r d) = awardsFor s (id_r d)"
    by (rule submitAll_awards_frozen[OF reach ver])
  ultimately have "(id_r d, req_userId req) \<notin> set (awardsFor (submitAll env s (req # reqs)) (id_r d))"
    by metis
  then have never: "(id_r d, req_userId req) \<notin> set (awardLog (submitAll env s' reqs))"
    by (simp add: awardsFor_def s')
  have flip: "awardsFor (submit env s req') r \<noteq> awardsFor s r \<longrightarrow>
            statusOf s r \<noteq> Some VERIFIED \<and> statusOf (submit env s req') r = Some VERIFIED"
    using submit_awards_only_on_flip[OF inv] by blast
  show ?thesis using row never flip by blast
qed

theorem late_corroborator_no_award_witness:
  "(reachable (exampleEnv True) noScores (submitAll (exampleEnv True) emptyStore [reqA, reqB])
    \<and> reportOf (exampleEnv True) reqA 0 VERIFIED
         \<in> set (dumpReports (submitAll (exampleEnv True) emptyStore [reqA, reqB]))
    \<and> status (reportOf (exampleEnv True) reqA 0 VERIFIED) = VERIFIED
    \<and> reporterId (reportOf (exampleEnv True) reqA 0 VERIFIED) \<noteq> req_userId reqC
    \<and> (id_r (reportOf (exampleEnv True) reqA 0 VERIFIED), req_userId reqC)
         \<notin> set (dumpVerifications (submitAll (exampleEnv True) emptyStore [reqA, reqB]))
    \<and> isWithinRadius (req_latitude reqC) (req_longitude reqC)
         (latitude (reportOf (exampleEnv True) reqA 0 VERIFIED))
         (longitude (reportOf (exampleEnv True) reqA 0 VERIFIED))
         (GEO_CLUSTER_RADIUS (exampleEnv True))
    \<and> reportDump (exampleEnv True) (submitAll (exampleEnv True) emptyStore [reqA, reqB]) reqC
         = (Inr \<lparr>report = Some (reportOf (exampleEnv True) reqC 2 VERIFIED), verificationCount = 3,
                 isVerified = True\<rparr>,
            submitAll (exampleEnv True) emptyStore [reqA, reqB, reqC])
    \<and> awardsFor (submit (exampleEnv True) (submitAll (exampleEnv True) emptyStore [reqA, reqB]) reqC) 2
         \<noteq> awardsFor (submitAll (exampleEnv True) emptyStore [reqA, reqB]) 2)
   \<and> (0, ''C'') \<in> set (dumpVerifications (submitAll (exampleEnv True) emptyStore [reqA, reqB, reqC]))
   \<and> (0, ''C'') \<notin> set (awardLog (submitAll (exampleEnv True) emptyStore [reqA, reqB, reqC]))
   \<and> statusOf (submitAll (exampleEnv True) emptyStore [reqA, reqB]) 2 \<noteq> Some VERIFIED
   \<and> statusOf (submit (exampleEnv True) (submitAll (exampleEnv True) emptyStore [reqA, reqB]) reqC) 2
        = Some VERIFIED"
proof -
  let ?e = "exampleEnv True"
  let ?d = "reportOf ?e reqA 0 VERIFIED"
  let ?s = "submitAll ?e emptyStore [reqA, reqB]"
  let ?s' = "submitAll ?e emptyStore [reqA, reqB, reqC]"
  have h1: "?d \<in> set (dumpReports ?s)"
    by (simp only: scenario_store) simp
  have h2: "status ?d = VERIFIED" by (simp add: reportOf_def)
  have h3: "reporterId ?d \<noteq> req_userId reqC" by (simp add: reportOf_def request_defs)
  have h4: "(id_r ?d, req_userId reqC) \<notin> set (dumpVerifications ?s)"
    by (simp only: scenario_store) (simp add: reportOf_def request_defs)
  have h5: "isWithinRadius (req_latitude reqC) (req_longitude reqC) (latitude ?d) (longitude ?d)
              (GEO_CLUSTER_RADIUS ?e)"
    by (simp add: reportOf_def request_defs)
  have h6: "reportDump ?e ?s reqC
         = (Inr \<lparr>report = Some (reportOf ?e reqC 2 VERIFIED), verificationCount = 3,
                 isVerified = True\<rparr>, ?s')"
    by (simp only: scenario_third scenario_store3)
  have s3: "submit ?e ?s reqC = ?s'" by simp
  have h7: "awardsFor (submit ?e ?s reqC) 2 \<noteq> awardsFor ?s 2"
    unfolding s3 by (simp only: scenario_store scenario_store3) (simp add: awardsFor_def)
  note T = late_corroborator_no_award[OF example_reachable h1 h2 h3 h4 h5 h6, of "[]" reqC 2]
  have c1: "(0, ''C'') \<in> set (dumpVerifications ?s')"
    and c2: "(0, ''C'') \<notin> set (awardLog ?s')"
    using T by (simp_all add: reportOf_def request_defs)
  have c3: "statusOf ?s 2 \<noteq> Some VERIFIED \<and> statusOf (submit ?e ?s reqC) 2 = Some VERIFIED"
    using T h7 by blast
  show ?thesis
    using example_reachable h1 h2 h3 h4 h5 h6 h7 c1 c2 c3 by blast
qed


lemma match_dataurl:
  assumes "w \<noteq> []" "list_all wordChar w"
  shows "matchDataUrlPrefix (''data:image/'' @ w @ '';base64,'' @ body) = Some (w, body)"
proof -
  have semi: "\<not> wordChar (CHR '';'')" by (simp add: wordChar_def)
  have all: "\<forall>c \<in> set w. wordChar c" using assms(2) by (simp add: list_all_iff)
  have rest: "w @ '';base64,'' @ body = w @ CHR '';'' # (''base64,'' @ body)" by simp
  have tw: "takeWhile wordChar (w @ '';base64,'' @ body) = w"
    unfolding rest using all semi by (simp add: takeWhile_tail)
  have dw: "dropWhile wordChar (w @ '';base64,'' @ body) = '';base64,'' @ body"
    unfolding rest using all semi by (simp add: dropWhile_append3)
  have tk: "take 11 (''data:image/'' @ w @ '';base64,'' @ body) = ''data:image/''" by simp
  have dr: "drop 11 (''data:image/'' @ w @ '';base64,'' @ body) = w @ '';base64,'' @ body"
    by simp
  show ?thesis
    unfolding matchDataUrlPrefix_def tk dr Let_def tw dw
    using assms(1) by simp
qed

text \<open>
  Claim C10. The photo fingerprint is the digest of the payload after stripping a leading
  data-URL preamble \<open>data:image/<type>;base64,\<close> (with \<open><type></type>\<close> a non-empty run of word
  characters). So a bare payload and the data URL with the same body have the same
  fingerprint, and once a submission with one of them has been accepted, every later
  submission with the other one that passes validation fails with \<open>PhotoAlreadyUsed\<close> (the
  spec's DuplicatePhoto) and leaves the store as it is.
\<close>

theorem preamble_stripped_before_hashing:
  assumes w: "w \<noteq> []" "list_all wordChar w"
    and bare: "matchDataUrlPrefix body = None"
    and pay: "(req_photoBase64 req1 = body
                \<and> req_photoBase64 req2 = ''data:image/'' @ w @ '';base64,'' @ body)
              \<or> (req_photoBase64 req1 = ''data:image/'' @ w @ '';base64,'' @ body
                \<and> req_photoBase64 req2 = body)"
    and first: "reportDump env s req1 = (Inr resp, s1)"
    and valid: "reportDumpSchema_ok req2" "isValidBase64Image (req_photoBase64 req2)"
  shows "generatePhotoHash (sha256 env) (''data:image/'' @ w @ '';base64,'' @ body) = sha256 env body
       \<and> generatePhotoHash (sha256 env) body = sha256 env body
       \<and> reportDump env (submitAll env s1 reqs) req2
           = (Inl PhotoAlreadyUsed, submitAll env s1 reqs)"
proof -
  have h1: "generatePhotoHash (sha256 env) (''data:image/'' @ w @ '';base64,'' @ body) = sha256 env body"
    by (simp only: generatePhotoHash_def stripDataUrlPrefix_def match_dataurl[OF w]) simp
  have h2: "generatePhotoHash (sha256 env) body = sha256 env body"
    by (simp add: generatePhotoHash_def stripDataUrlPrefix_def bare)
  have same: "generatePhotoHash (sha256 env) (req_photoBase64 req2)
                = generatePhotoHash (sha256 env) (req_photoBase64 req1)"
    using pay h1 h2 by auto
  have "generatePhotoHash (sha256 env) (req_photoBase64 req1) \<in> fst ` set (photoHashes s1)"
    by (rule accepted_registers[OF first])
  then have "generatePhotoHash (sha256 env) (req_photoBase64 req2)
               \<in> fst ` set (photoHashes (submitAll env s1 reqs))"
    using submitAll_photoHashes_mono[of s1 env reqs] same by auto
  then have "reportDump env (submitAll env s1 reqs) req2
           = (Inl PhotoAlreadyUsed, submitAll env s1 reqs)"
    using valid by (rule duplicate_rejected(3))
  then show ?thesis using h1 h2 by blast
qed

theorem preamble_stripped_before_hashing_witness:
  "(''jpeg'' \<noteq> [] \<and> list_all wordChar ''jpeg''
    \<and> matchDataUrlPrefix (replicate 100 (CHR ''A'')) = None
    \<and> req_photoBase64 reqA = replicate 100 (CHR ''A'')
    \<and> req_photoBase64 (mkRequest ''B'' 3.8481 11.5022
          (''data:image/'' @ ''jpeg'' @ '';base64,'' @ replicate 100 (CHR ''A'')))
        = ''data:image/'' @ ''jpeg'' @ '';base64,'' @ replicate 100 (CHR ''A'')
    \<and> reportDump (exampleEnv True) emptyStore reqA
        = (Inr \<lparr>report = Some (reportOf (exampleEnv True) reqA 0 UNVERIFIED), verificationCount = 1,
                isVerified = False\<rparr>, submitAll (exampleEnv True) emptyStore [reqA])
    \<and> reportDumpSchema_ok (mkRequest ''B'' 3.8481 11.5022
          (''data:image/'' @ ''jpeg'' @ '';base64,'' @ replicate 100 (CHR ''A'')))
    \<and> isValidBase64Image (req_photoBase64 (mkRequest ''B'' 3.8481 11.5022
          (''data:image/'' @ ''jpeg'' @ '';base64,'' @ replicate 100 (CHR ''A'')))))
   \<and> reportDump (exampleEnv True) (submitAll (exampleEnv True) emptyStore [reqA])
        (mkRequest ''B'' 3.8481 11.5022
          (''data:image/'' @ ''jpeg'' @ '';base64,'' @ replicate 100 (CHR ''A'')))
       = (Inl PhotoAlreadyUsed, submitAll (exampleEnv True) emptyStore [reqA])"
proof -
  let ?body = "replicate 100 (CHR ''A'')"
  let ?url = "''data:image/'' @ ''jpeg'' @ '';base64,'' @ ?body"
  let ?req2 = "mkRequest ''B'' 3.8481 11.5022 ?url"
  have w: "''jpeg'' \<noteq> []" "list_all wordChar ''jpeg''"
    by (simp_all add: wordChar_def)
  have bare: "matchDataUrlPrefix ?body = None" by simp
  have p1: "req_photoBase64 reqA = ?body" by (simp add: request_defs)
  have p2: "req_photoBase64 ?req2 = ?url" by (simp add: mkRequest_def)
  have pay: "(req_photoBase64 reqA = ?body \<and> req_photoBase64 ?req2 = ?url)
              \<or> (req_photoBase64 reqA = ?url \<and> req_photoBase64 ?req2 = ?body)"
    using p1 p2 by blast
  have s1: "submitAll (exampleEnv True) emptyStore [reqA] =
      \<lparr>photoHashes = [(replicate 100 (CHR ''A''), ''A'')],
        dumpReports = [reportOf (exampleEnv True) reqA 0 UNVERIFIED],
        dumpVerifications = [(0, ''A'')],
        reputationScores = noScores, awardLog = []\<rparr>"
    by (simp add: submit_def scenario_first)
  have first: "reportDump (exampleEnv True) emptyStore reqA
        = (Inr \<lparr>report = Some (reportOf (exampleEnv True) reqA 0 UNVERIFIED), verificationCount = 1,
                isVerified = False\<rparr>, submitAll (exampleEnv True) emptyStore [reqA])"
    by (simp only: s1 scenario_first)
  have v1: "reportDumpSchema_ok ?req2"
    by (simp add: reportDumpSchema_ok_def parseSize_def mkRequest_def)
  have v2: "isValidBase64Image (req_photoBase64 ?req2)"
    unfolding p2
    by (simp only: isValidBase64Image_def match_dataurl[OF w])
      (simp add: list_all_iff lineTerminator_def)
  have "reportDump (exampleEnv True) (submitAll (exampleEnv True) emptyStore [reqA]) ?req2
       = (Inl PhotoAlreadyUsed, submitAll (exampleEnv True) emptyStore [reqA])"
    using preamble_stripped_before_hashing[OF w bare pay first v1 v2, of "[]"] by simp
  then show ?thesis using w bare p1 p2 first v1 v2 by blast
qed


end
